theory Spec2Isabelle
  imports Main
begin

section \<open>The streaming response segmenter of completion\_manager.py\<close>

text \<open>
  The development embeds \<^verbatim>\<open>CompletionManager._stream_sentences_from_chunks\<close>
  (src/completion\_manager.py, lines 87 to 158).  A Python \<^verbatim>\<open>str\<close> is a
  \<^typ>\<open>string\<close>; a \<^typ>\<open>char\<close> stands for a code point below 256.  An event
  is the pair the generator yields: its tag (\<^verbatim>\<open>"sentence"\<close>,
  \<^verbatim>\<open>"clipboard_text"\<close>, \<^verbatim>\<open>"full_response"\<close>) and its payload.
  A generator that raises is a list of the events yielded so far together with the error.
\<close>

subsection \<open>Python string operations\<close>

text \<open>\<^verbatim>\<open>str.isspace\<close> on one character, which is also the class \<^verbatim>\<open>\s\<close> of
  \<^verbatim>\<open>re\<close> on a \<^verbatim>\<open>str\<close> pattern: tab, line feed, vertical tab, form feed,
  carriage return, the separators 0x1C to 0x1F, space, NEL and the no-break space.\<close>

definition isspace :: "char \<Rightarrow> bool" where
  "isspace c = (c \<in> set [CHR 0x09, CHR 0x0A, CHR 0x0B, CHR 0x0C, CHR 0x0D,
                          CHR 0x1C, CHR 0x1D, CHR 0x1E, CHR 0x1F, CHR 0x20,
                          CHR 0x85, CHR 0xA0])"

text \<open>\<^verbatim>\<open>s.strip()\<close>: leading and trailing whitespace removed.\<close>

definition strip :: "string \<Rightarrow> string" where
  "strip s = rev (dropWhile isspace (rev (dropWhile isspace s)))"

text \<open>\<^verbatim>\<open>s.startswith(p)\<close>.\<close>

fun startswith :: "string \<Rightarrow> string \<Rightarrow> bool" where
  "startswith s [] = True"
| "startswith [] (p # ps) = False"
| "startswith (c # cs) (p # ps) = (c = p \<and> startswith cs ps)"

text \<open>\<^verbatim>\<open>s.find(sub)\<close>: the index of the first occurrence, \<open>None\<close> for Python's -1.\<close>

fun str_find :: "string \<Rightarrow> string \<Rightarrow> nat option" where
  "str_find [] sub = (if sub = [] then Some 0 else None)"
| "str_find (c # cs) sub =
     (if startswith (c # cs) sub then Some 0 else map_option Suc (str_find cs sub))"

text \<open>\<^verbatim>\<open>sub in s\<close>.\<close>

definition contains :: "string \<Rightarrow> string \<Rightarrow> bool" where
  "contains sub s = (str_find s sub \<noteq> None)"

datatype error = ValueError

text \<open>\<^verbatim>\<open>s.partition(sep)\<close>: the text before the first occurrence of the separator,
  the separator, the text after it; the whole string and two empty strings when the
  separator does not occur; \<^verbatim>\<open>ValueError\<close> on an empty separator.\<close>

definition str_partition :: "string \<Rightarrow> string \<Rightarrow> error + (string \<times> string \<times> string)" where
  "str_partition s sep =
     (if sep = [] then Inl ValueError
      else (case str_find s sep of
              None \<Rightarrow> Inr (s, [], [])
            | Some i \<Rightarrow> Inr (take i s, sep, drop (i + length sep) s)))"

subsection \<open>The sentence boundary pattern\<close>

text \<open>
  \<^verbatim>\<open>sentence_endings = re.compile(r'(?<=[.!?])\s+|(?<=\n)')\<close> and
  \<^verbatim>\<open>sentence_endings.search(buffer)\<close>.  The scan tries every position from the
  left; at a position it tries the first alternative (the previous character is one of
  \<^verbatim>\<open>. ! ?\<close> and a greedy, non-empty run of whitespace follows), then the second (the
  previous character is a line feed, the match is empty).  The result is
  \<^verbatim>\<open>match.end()\<close>, \<open>None\<close> when nothing matches.  \<open>prev\<close> is the character before
  the position, \<open>rest\<close> the text from the position on.
\<close>

fun sentence_endings_scan :: "char option \<Rightarrow> string \<Rightarrow> nat \<Rightarrow> nat option" where
  "sentence_endings_scan prev [] pos =
     (if prev = Some (CHR 0x0A) then Some pos else None)"
| "sentence_endings_scan prev (c # cs) pos =
     (if prev \<in> {Some (CHR ''.''), Some (CHR ''!''), Some (CHR ''?'')} \<and> isspace c
        then Some (pos + length (takeWhile isspace (c # cs)))
      else if prev = Some (CHR 0x0A) then Some pos
      else sentence_endings_scan (Some c) cs (Suc pos))"

definition sentence_endings_search :: "string \<Rightarrow> nat option" where
  "sentence_endings_search buffer = sentence_endings_scan None buffer 0"

subsection \<open>Events, state and generators\<close>

type_synonym event = "string \<times> string"

text \<open>The local variables of the generator that live across chunks.\<close>

record state =
  buffer :: string
  full_response :: string
  in_marker :: bool
  in_backticks :: bool

text \<open>A piece of the generator's body: the events it yields, then the exception it raises
  or the state it leaves.\<close>

type_synonym gen = "event list \<times> (error + state)"

definition gen_bind :: "gen \<Rightarrow> (state \<Rightarrow> gen) \<Rightarrow> gen" where
  "gen_bind r f =
     (case r of
        (evs, Inl e) \<Rightarrow> (evs, Inl e)
      | (evs, Inr st) \<Rightarrow> (case f st of (evs', r') \<Rightarrow> (evs @ evs', r')))"

definition init :: state where
  "init = \<lparr>buffer = [], full_response = [], in_marker = False, in_backticks = False\<rparr>"

subsection \<open>The body of the loop over the chunks\<close>

text \<open>Lines 111 to 116: the start marker.\<close>

definition marker_start :: "string \<Rightarrow> state \<Rightarrow> gen" where
  "marker_start clip_start_marker st =
     (if contains clip_start_marker (buffer st) \<and> \<not> in_marker st then
        (case str_partition (buffer st) clip_start_marker of
           Inl e \<Rightarrow> ([], Inl e)
         | Inr (pre, m, post) \<Rightarrow>
             ((if strip pre \<noteq> [] then [(''sentence'', strip pre)] else []),
              Inr (st\<lparr>buffer := post, in_marker := True\<rparr>)))
      else ([], Inr st))"

text \<open>Lines 118 to 122: the end marker.\<close>

definition marker_end :: "string \<Rightarrow> state \<Rightarrow> gen" where
  "marker_end clip_end_marker st =
     (if contains clip_end_marker (buffer st) \<and> in_marker st then
        (case str_partition (buffer st) clip_end_marker of
           Inl e \<Rightarrow> ([], Inl e)
         | Inr (marked_section, m, post_end) \<Rightarrow>
             ([(''clipboard_text'', strip marked_section)],
              Inr (st\<lparr>buffer := post_end, in_marker := False\<rparr>)))
      else ([], Inr st))"

text \<open>Lines 110 to 122.\<close>

definition markers :: "string \<Rightarrow> string \<Rightarrow> state \<Rightarrow> gen" where
  "markers clip_start_marker clip_end_marker st =
     (if \<not> in_backticks st
      then gen_bind (marker_start clip_start_marker st) (marker_end clip_end_marker)
      else ([], Inr st))"

text \<open>Lines 124 to 136: the triple backticks, an \<^verbatim>\<open>if\<close> and an \<^verbatim>\<open>elif\<close>.\<close>

definition backticks :: "state \<Rightarrow> gen" where
  "backticks st =
     (if \<not> in_marker st then
        (if \<not> in_backticks st \<and> contains ''```'' (buffer st) then
           (case str_partition (buffer st) ''```'' of
              Inl e \<Rightarrow> ([], Inl e)
            | Inr (pre, m, post) \<Rightarrow>
                ((if strip pre \<noteq> [] then [(''sentence'', strip pre)] else []),
                 Inr (st\<lparr>buffer := post, in_backticks := True\<rparr>)))
         else if in_backticks st \<and> contains ''```'' (buffer st) then
           (case str_partition (buffer st) ''```'' of
              Inl e \<Rightarrow> ([], Inl e)
            | Inr (marked_section, m, post_end) \<Rightarrow>
                ([(''clipboard_text'', ''```'' @ strip marked_section @ ''```''),
                  (''sentence'', ''Code saved to the clipboard.'')],
                 Inr (st\<lparr>buffer := post_end, in_backticks := False\<rparr>)))
         else ([], Inr st))
      else ([], Inr st))"

text \<open>Lines 139 to 147: the \<^verbatim>\<open>while True\<close> loop, from a buffer to the sentences it
  yields and the buffer it leaves.\<close>

function sentence_loop :: "string \<Rightarrow> event list \<times> string" where
  "sentence_loop buf =
     (case sentence_endings_search buf of
        None \<Rightarrow> ([], buf)
      | Some e \<Rightarrow>
          (case sentence_loop (drop e buf) of
             (evs, b) \<Rightarrow>
               ((if strip (take e buf) \<noteq> [] then [(''sentence'', strip (take e buf))] else [])
                  @ evs, b)))"
  by pat_completeness auto

lemma sentence_endings_scan_end:
  "sentence_endings_scan prev rest pos = Some e \<Longrightarrow>
     (if prev = None then pos < e else pos \<le> e) \<and> e \<le> pos + length rest"
proof (induction rest arbitrary: prev pos)
  case Nil
  then show ?case by (auto split: if_splits)
next
  case (Cons c cs)
  show ?case
  proof (cases "prev \<in> {Some (CHR ''.''), Some (CHR ''!''), Some (CHR ''?'')} \<and> isspace c")
    case True
    with Cons.prems have "e = pos + length (takeWhile isspace (c # cs))" by simp
    moreover have "length (takeWhile isspace (c # cs)) \<le> length (c # cs)"
      by (rule length_takeWhile_le)
    ultimately show ?thesis using True by auto
  next
    case False
    show ?thesis
    proof (cases "prev = Some (CHR 0x0A)")
      case True
      with False Cons.prems show ?thesis by auto
    next
      case nl: False
      with False Cons.prems have "sentence_endings_scan (Some c) cs (Suc pos) = Some e"
        by auto
      from Cons.IH [OF this] show ?thesis by (auto split: if_splits)
    qed
  qed
qed

lemma sentence_endings_search_end:
  "sentence_endings_search buf = Some e \<Longrightarrow> 0 < e \<and> e \<le> length buf"
  using sentence_endings_scan_end [of None buf 0 e]
  by (simp add: sentence_endings_search_def)

termination sentence_loop
proof (relation "measure length")
  show "wf (measure length)" by simp
next
  fix buf :: string and e :: nat
  assume "sentence_endings_search buf = Some e"
  then have "0 < e \<and> e \<le> length buf" by (rule sentence_endings_search_end)
  then show "(drop e buf, buf) \<in> measure length" by auto
qed

declare sentence_loop.simps [simp del]

text \<open>Lines 138 to 147.\<close>

definition sentences :: "state \<Rightarrow> gen" where
  "sentences st =
     (if \<not> in_marker st \<and> \<not> in_backticks st then
        (case sentence_loop (buffer st) of
           (evs, b) \<Rightarrow> (evs, Inr (st\<lparr>buffer := b\<rparr>)))
      else ([], Inr st))"

text \<open>Lines 107 to 147: one iteration of \<^verbatim>\<open>for chunk in chunks_stream\<close>.\<close>

definition process_chunk :: "string \<Rightarrow> string \<Rightarrow> state \<Rightarrow> string \<Rightarrow> gen" where
  "process_chunk clip_start_marker clip_end_marker st chunk =
     gen_bind
       (gen_bind
          (markers clip_start_marker clip_end_marker
             (st\<lparr>buffer := buffer st @ chunk, full_response := full_response st @ chunk\<rparr>))
          backticks)
       sentences"

text \<open>Lines 106 to 147: the loop over the chunks.\<close>

fun stream_loop :: "string \<Rightarrow> string \<Rightarrow> state \<Rightarrow> string list \<Rightarrow> gen" where
  "stream_loop clip_start_marker clip_end_marker st [] = ([], Inr st)"
| "stream_loop clip_start_marker clip_end_marker st (chunk # chunks) =
     gen_bind (process_chunk clip_start_marker clip_end_marker st chunk)
       (\<lambda>st'. stream_loop clip_start_marker clip_end_marker st' chunks)"

subsection \<open>After the loop\<close>

text \<open>Lines 149 to 155: what is left in the buffer.\<close>

definition flush :: "state \<Rightarrow> event list" where
  "flush st =
     (if strip (buffer st) \<noteq> [] then
        (if in_backticks st then [(''clipboard_text'', ''```'' @ strip (buffer st))]
         else if \<not> in_marker st then [(''sentence'', strip (buffer st))]
         else [(''clipboard_text'', strip (buffer st))])
      else [])"

text \<open>Lines 157 and 158: the full response.\<close>

definition final :: "state \<Rightarrow> event list" where
  "final st =
     (if strip (full_response st) \<noteq> [] then [(''full_response'', strip (full_response st))]
      else [])"

text \<open>The generator: the events it yields, and the exception that ended it, if any.\<close>

definition stream_sentences_from_chunks ::
    "string list \<Rightarrow> string \<Rightarrow> string \<Rightarrow> event list \<times> error option" where
  "stream_sentences_from_chunks chunks_stream clip_start_marker clip_end_marker =
     (case stream_loop clip_start_marker clip_end_marker init chunks_stream of
        (evs, Inl e) \<Rightarrow> (evs, Some e)
      | (evs, Inr st) \<Rightarrow> (evs @ flush st @ final st, None))"

text \<open>The default markers of the signature, and the generator called with them.\<close>

definition default_start :: string where
  "default_start = ''-CLIPSTART-''"

definition default_end :: string where
  "default_end = ''-CLIPEND-''"

definition segment :: "string list \<Rightarrow> event list \<times> error option" where
  "segment chunks_stream = stream_sentences_from_chunks chunks_stream default_start default_end"

text \<open>The stream that delivers a string one character at a time.\<close>

definition per_char :: "string \<Rightarrow> string list" where
  "per_char s = map (\<lambda>c. [c]) s"

section \<open>Notions used in the statements\<close>

text \<open>A string with its whitespace removed: what is left of a payload when differences of
  whitespace are ignored.\<close>

definition squash :: "string \<Rightarrow> string" where
  "squash s = filter (\<lambda>c. \<not> isspace c) s"

text \<open>A sequence of events compared modulo trimming: every payload without its whitespace.\<close>

definition modulo_trim :: "event list \<Rightarrow> event list" where
  "modulo_trim evs = map (\<lambda>(k, p). (k, squash p)) evs"

text \<open>The payloads of the sentence and clipboard events of a sequence, concatenated.\<close>

definition payload_text :: "event list \<Rightarrow> string" where
  "payload_text evs =
     concat (map snd (filter (\<lambda>e. fst e = ''sentence'' \<or> fst e = ''clipboard_text'') evs))"

text \<open>The payloads of the sentence and clipboard events of a sequence, in order.\<close>

definition payloads :: "event list \<Rightarrow> string list" where
  "payloads evs =
     map snd (filter (\<lambda>e. fst e = ''sentence'' \<or> fst e = ''clipboard_text'') evs)"

text \<open>A text put together from payloads and the gaps around them: a gap, a payload, a
  gap, and so on, with one gap more than payloads.\<close>

fun weave :: "string list \<Rightarrow> string list \<Rightarrow> string" where
  "weave (g # gs) (p # ps) = g @ p @ weave gs ps"
| "weave gs [] = concat gs"
| "weave [] (p # ps) = concat (p # ps)"

text \<open>A text is its payloads, in order, with nothing but whitespace before, between and
  after them.\<close>

definition woven :: "string list \<Rightarrow> string \<Rightarrow> bool" where
  "woven ps s = (\<exists>gaps. length gaps = Suc (length ps) \<and> list_all (list_all isspace) gaps \<and>
                   s = weave gaps ps)"

text \<open>The full response events of a sequence.\<close>

definition full_responses :: "event list \<Rightarrow> event list" where
  "full_responses evs = filter (\<lambda>e. fst e = ''full_response'') evs"

text \<open>The guarded yield of lines 113, 127, 144 and 152: a sentence, unless it is blank.\<close>

definition emit :: "string \<Rightarrow> event list" where
  "emit s = (if strip s \<noteq> [] then [(''sentence'', strip s)] else [])"

text \<open>The sentences of a text that holds no marker and no fence: those the loop of lines
  139 to 147 cuts, then the rest as the flush of line 153 yields it.\<close>

definition whole :: "string \<Rightarrow> event list" where
  "whole buf = fst (sentence_loop buf) @ emit (snd (sentence_loop buf))"

text \<open>The full response event of a text.\<close>

definition final_of :: "string \<Rightarrow> event list" where
  "final_of s = (if strip s \<noteq> [] then [(''full_response'', strip s)] else [])"

text \<open>Kinds of events: a sentence that is not blank, a clipboard text that is not blank,
  and what the loop over the chunks may yield.\<close>

definition spoken :: "event \<Rightarrow> bool" where
  "spoken e = (fst e = ''sentence'' \<and> strip (snd e) \<noteq> [])"

definition clipped :: "event \<Rightarrow> bool" where
  "clipped e = (fst e = ''clipboard_text'' \<and> strip (snd e) \<noteq> [])"

definition loop_event :: "event \<Rightarrow> bool" where
  "loop_event e = (spoken e \<or> clipped e \<or> e = (''clipboard_text'', []))"




text \<open>The two modes are not both on.\<close>

definition exclusive :: "state \<Rightarrow> bool" where
  "exclusive st = (\<not> (in_marker st \<and> in_backticks st))"

text \<open>
  A fixed text \<open>s\<close> under every chunking.  \<open>sf i\<close> is the state and \<open>ef i\<close> the events
  yielded once the first \<open>i\<close> characters are consumed; \<open>step_ok\<close> checks that one chunk
  leads from position \<open>i\<close> to position \<open>j\<close>, \<open>steps_ok\<close> checks all pairs of positions.
\<close>

definition step_ok ::
  "string \<Rightarrow> string \<Rightarrow> string \<Rightarrow> (nat \<Rightarrow> state) \<Rightarrow> (nat \<Rightarrow> event list) \<Rightarrow> nat \<Rightarrow> nat \<Rightarrow> bool" where
  "step_ok clip_start_marker clip_end_marker s sf ef i j =
     (case process_chunk clip_start_marker clip_end_marker (sf i) (drop i (take j s)) of
        (evs, r) \<Rightarrow> r = Inr (sf j) \<and> ef j = ef i @ evs)"

definition steps_ok ::
  "string \<Rightarrow> string \<Rightarrow> string \<Rightarrow> (nat \<Rightarrow> state) \<Rightarrow> (nat \<Rightarrow> event list) \<Rightarrow> bool" where
  "steps_ok clip_start_marker clip_end_marker s sf ef =
     list_all (\<lambda>i. list_all (step_ok clip_start_marker clip_end_marker s sf ef i)
                       [i..<Suc (length s)]) [0..<Suc (length s)]"

text \<open>The text of the marker example: the state and the events by the number of
  characters consumed (the start marker ends at 17, the end marker at 32).\<close>

definition marker_text :: string where
  "marker_text = ''Hello -CLIPSTART-secret-CLIPEND- world.''"

definition marker_text_state :: "nat \<Rightarrow> state" where
  "marker_text_state i =
     \<lparr>buffer = (if i < 17 then take i marker_text
                else if i < 32 then drop 17 (take i marker_text)
                else drop 32 (take i marker_text)),
      full_response = take i marker_text,
      in_marker = (17 \<le> i \<and> i < 32),
      in_backticks = False\<rparr>"

definition marker_text_events :: "nat \<Rightarrow> event list" where
  "marker_text_events i =
     (if i < 17 then []
      else if i < 32 then [(''sentence'', ''Hello'')]
      else [(''sentence'', ''Hello''), (''clipboard_text'', ''secret'')])"




section \<open>Lemmas\<close>

subsection \<open>Trimming and whitespace\<close>

lemma dropWhile_all_iff: "(\<forall>c\<in>set (dropWhile P s). P c) \<longleftrightarrow> (\<forall>c\<in>set s. P c)"
  by (induction s) auto

lemma strip_Nil_iff: "strip s = [] \<longleftrightarrow> (\<forall>c\<in>set s. isspace c)"
  by (simp add: strip_def dropWhile_eq_Nil_conv dropWhile_all_iff)

lemma strip_Nil [simp]: "strip [] = []"
  by (simp add: strip_def)

lemma strip_append_space:
  assumes "\<forall>c\<in>set ws. isspace c"
  shows "strip (x @ ws) = strip x"
proof (cases "\<forall>c\<in>set x. isspace c")
  case True
  with assms have "strip (x @ ws) = []" by (auto simp: strip_Nil_iff)
  moreover from True have "strip x = []" by (simp add: strip_Nil_iff)
  ultimately show ?thesis by simp
next
  case False
  then have "dropWhile isspace (x @ ws) = dropWhile isspace x @ ws"
    by (auto simp: dropWhile_append1)
  moreover have "dropWhile isspace (rev ws @ rev (dropWhile isspace x)) =
      dropWhile isspace (rev (dropWhile isspace x))"
    by (rule dropWhile_append2) (use assms in auto)
  ultimately show ?thesis by (simp add: strip_def)
qed

lemma strip_Cons_space: "isspace w \<Longrightarrow> strip (w # t) = strip t"
  by (simp add: strip_def)

lemma strip_nonblank:
  assumes "strip s \<noteq> []"
  shows "\<exists>c\<in>set (strip s). \<not> isspace c"
proof -
  let ?d = "dropWhile isspace (rev (dropWhile isspace s))"
  from assms have ne: "?d \<noteq> []" by (simp add: strip_def)
  then have "\<not> isspace (hd ?d)" by (rule hd_dropWhile)
  moreover from ne have "hd ?d \<in> set ?d" by simp
  ultimately show ?thesis by (auto simp: strip_def)
qed

lemma strip_strip_nonblank: "strip s \<noteq> [] \<Longrightarrow> strip (strip s) \<noteq> []"
  using strip_nonblank [of s] by (auto simp: strip_Nil_iff)

subsection \<open>Substring search\<close>

lemma startswith_iff: "startswith s p \<longleftrightarrow> (\<exists>q. s = p @ q)"
  by (induction s p rule: startswith.induct) auto

lemma str_find_Some:
  "str_find s sub = Some i \<Longrightarrow>
     \<exists>q. s = take i s @ sub @ q \<and> i + length sub \<le> length s"
proof (induction s arbitrary: i)
  case Nil
  then show ?case by (auto split: if_splits)
next
  case (Cons c cs)
  show ?case
  proof (cases "startswith (c # cs) sub")
    case True
    with Cons.prems have i: "i = 0" by simp
    from True obtain q where q: "c # cs = sub @ q" by (auto simp: startswith_iff)
    then have "length (c # cs) = length sub + length q" by (metis length_append)
    with i q show ?thesis by auto
  next
    case False
    with Cons.prems obtain k where k: "str_find cs sub = Some k" "i = Suc k" by auto
    from Cons.IH [OF k(1)] k(2) show ?thesis by auto
  qed
qed

lemma str_find_None_iff: "str_find s sub = None \<longleftrightarrow> \<not> (\<exists>p q. s = p @ sub @ q)"
proof (induction s)
  case Nil
  then show ?case by auto
next
  case (Cons c cs)
  show ?case
  proof (cases "startswith (c # cs) sub")
    case True
    then obtain q where "c # cs = [] @ sub @ q" by (auto simp: startswith_iff)
    then have "\<exists>p q. c # cs = p @ sub @ q" by blast
    with True show ?thesis by simp
  next
    case False
    have "(\<exists>p q. c # cs = p @ sub @ q) \<longleftrightarrow> (\<exists>p q. cs = p @ sub @ q)"
    proof
      assume "\<exists>p q. c # cs = p @ sub @ q"
      then obtain p q where pq: "c # cs = p @ sub @ q" by blast
      show "\<exists>p q. cs = p @ sub @ q"
      proof (cases p)
        case Nil
        with pq False show ?thesis by (auto simp: startswith_iff)
      next
        case (Cons a p')
        with pq have "cs = p' @ sub @ q" by simp
        then show ?thesis by blast
      qed
    next
      assume "\<exists>p q. cs = p @ sub @ q"
      then obtain p q where "cs = p @ sub @ q" by blast
      then have "c # cs = (c # p) @ sub @ q" by simp
      then show "\<exists>p q. c # cs = p @ sub @ q" by blast
    qed
    with False Cons.IH show ?thesis by simp
  qed
qed

lemma contains_iff: "contains sub s \<longleftrightarrow> (\<exists>p q. s = p @ sub @ q)"
  by (simp add: contains_def str_find_None_iff)

lemma contains_append: "contains sub s \<Longrightarrow> contains sub (a @ s @ b)"
proof -
  assume "contains sub s"
  then obtain p q where "s = p @ sub @ q" by (auto simp: contains_iff)
  then have "a @ s @ b = (a @ p) @ sub @ (q @ b)" by simp
  then show ?thesis unfolding contains_iff by blast
qed

lemma contains_appendL: "contains sub s \<Longrightarrow> contains sub (a @ s)"
  using contains_append [of sub s a "[]"] by simp

lemma contains_appendR: "contains sub s \<Longrightarrow> contains sub (s @ b)"
  using contains_append [of sub s "[]" b] by simp

subsection \<open>The sentence loop and text appended to its buffer\<close>

lemma isspace_newline [simp]: "isspace (CHR 0x0A)"
  by (simp add: isspace_def)

lemma not_isspace_punct [simp]:
  "\<not> isspace (CHR ''.'')" "\<not> isspace (CHR ''!'')" "\<not> isspace (CHR ''?'')"
  by (simp_all add: isspace_def)

lemma sentence_loop_None:
  "sentence_endings_search buf = None \<Longrightarrow> sentence_loop buf = ([], buf)"
  by (subst sentence_loop.simps) simp

lemma sentence_loop_Some:
  "sentence_endings_search buf = Some e \<Longrightarrow>
     sentence_loop buf =
       (emit (take e buf) @ fst (sentence_loop (drop e buf)), snd (sentence_loop (drop e buf)))"
  by (subst sentence_loop.simps) (simp add: emit_def split: prod.splits)

lemma emit_blank: "\<forall>c\<in>set s. isspace c \<Longrightarrow> emit s = []"
  by (simp add: emit_def strip_Nil_iff)

lemma emit_append_space: "\<forall>c\<in>set ws. isspace c \<Longrightarrow> emit (x @ ws) = emit x"
  by (simp add: emit_def strip_append_space)

lemma emit_Cons_space: "isspace w \<Longrightarrow> emit (w # t) = emit t"
  by (simp add: emit_def strip_Cons_space)

lemma scan_shift:
  "sentence_endings_scan prev rest (Suc pos) = map_option Suc (sentence_endings_scan prev rest pos)"
  by (induction rest arbitrary: prev pos) auto

lemma scan_prev_plain:
  assumes "prev \<notin> {Some (CHR ''.''), Some (CHR ''!''), Some (CHR ''?''), Some (CHR 0x0A)}"
  shows "sentence_endings_scan prev rest pos = sentence_endings_scan None rest pos"
  using assms by (cases rest) auto

lemma search_Cons_newline: "sentence_endings_search (CHR 0x0A # t) = Some 1"
  by (cases t) (auto simp: sentence_endings_search_def)

lemma search_Cons_space:
  assumes "isspace w" "w \<noteq> CHR 0x0A"
  shows "sentence_endings_search (w # t) = map_option Suc (sentence_endings_search t)"
proof -
  from assms have "Some w \<notin> {Some (CHR ''.''), Some (CHR ''!''), Some (CHR ''?''), Some (CHR 0x0A)}"
    by auto
  then have "sentence_endings_scan (Some w) t (Suc 0) = sentence_endings_scan None t (Suc 0)"
    by (rule scan_prev_plain)
  then show ?thesis
    by (simp add: sentence_endings_search_def scan_shift)
qed

lemma whole_Cons_space:
  assumes "isspace w"
  shows "whole (w # t) = whole t"
proof (cases "w = CHR 0x0A")
  case True
  have "sentence_loop (w # t) = sentence_loop t"
    using True sentence_loop_Some [OF search_Cons_newline, of t]
    by (simp add: emit_blank)
  then show ?thesis by (simp add: whole_def)
next
  case False
  note s = search_Cons_space [OF assms False, of t]
  show ?thesis
  proof (cases "sentence_endings_search t")
    case None
    with s have "sentence_endings_search (w # t) = None" by simp
    with None show ?thesis
      using assms by (simp add: whole_def sentence_loop_None emit_Cons_space)
  next
    case (Some e)
    with s have "sentence_endings_search (w # t) = Some (Suc e)" by simp
    from sentence_loop_Some [OF this] sentence_loop_Some [OF Some]
    have "sentence_loop (w # t) = sentence_loop t"
      using assms by (simp add: emit_Cons_space)
    then show ?thesis by (simp add: whole_def)
  qed
qed

lemma whole_spaces: "\<forall>c\<in>set ws. isspace c \<Longrightarrow> whole (ws @ t) = whole t"
  by (induction ws) (simp_all add: whole_Cons_space)

lemma scan_append:
  assumes "sentence_endings_scan prev rest pos = Some e"
  shows "\<exists>k. sentence_endings_scan prev (rest @ t) pos = Some (e + k) \<and> k \<le> length t \<and>
            (\<forall>c\<in>set (take k t). isspace c) \<and> (0 < k \<longrightarrow> e = pos + length rest)"
  using assms
proof (induction rest arbitrary: prev pos)
  case Nil
  then have p: "prev = Some (CHR 0x0A)" "e = pos" by (auto split: if_splits)
  then have "sentence_endings_scan prev ([] @ t) pos = Some (e + 0)"
    by (cases t) auto
  then show ?case by (intro exI [of _ 0]) simp
next
  case (Cons c cs)
  show ?case
  proof (cases "prev \<in> {Some (CHR ''.''), Some (CHR ''!''), Some (CHR ''?'')} \<and> isspace c")
    case True
    with Cons.prems have e: "e = pos + length (takeWhile isspace (c # cs))" by simp
    from True have r: "sentence_endings_scan prev ((c # cs) @ t) pos =
        Some (pos + length (takeWhile isspace ((c # cs) @ t)))" by simp
    show ?thesis
    proof (cases "\<forall>x\<in>set (c # cs). isspace x")
      case all: True
      then have tw: "takeWhile isspace ((c # cs) @ t) = (c # cs) @ takeWhile isspace t"
        by (intro takeWhile_append2) auto
      from all have tw0: "takeWhile isspace (c # cs) = c # cs"
        by (intro takeWhile_eq_all_conv [THEN iffD2]) auto
      let ?k = "length (takeWhile isspace t)"
      have "take ?k t = takeWhile isspace t"
        by (metis append_eq_conv_conj takeWhile_dropWhile_id)
      then have "\<forall>x\<in>set (take ?k t). isspace x"
        by (auto dest: set_takeWhileD)
      moreover have "?k \<le> length t" by (rule length_takeWhile_le)
      moreover have "sentence_endings_scan prev ((c # cs) @ t) pos = Some (e + ?k)"
        using r e tw tw0 by simp
      moreover have "e = pos + length (c # cs)" using e tw0 by simp
      ultimately show ?thesis by blast
    next
      case False
      then obtain x where "x \<in> set (c # cs)" "\<not> isspace x" by blast
      then have "takeWhile isspace ((c # cs) @ t) = takeWhile isspace (c # cs)"
        by (rule takeWhile_append1)
      with r e have "sentence_endings_scan prev ((c # cs) @ t) pos = Some (e + 0)" by simp
      then show ?thesis by (intro exI [of _ 0]) simp
    qed
  next
    case False
    show ?thesis
    proof (cases "prev = Some (CHR 0x0A)")
      case True
      with False Cons.prems have "sentence_endings_scan prev ((c # cs) @ t) pos = Some (e + 0)"
        by auto
      then show ?thesis by (intro exI [of _ 0]) simp
    next
      case nl: False
      with False Cons.prems have "sentence_endings_scan (Some c) cs (Suc pos) = Some e"
        by auto
      from Cons.IH [OF this] obtain k where
        k: "sentence_endings_scan (Some c) (cs @ t) (Suc pos) = Some (e + k)" "k \<le> length t"
           "\<forall>x\<in>set (take k t). isspace x" "0 < k \<longrightarrow> e = Suc pos + length cs"
        by blast
      from False nl k(1) have "sentence_endings_scan prev ((c # cs) @ t) pos = Some (e + k)"
        by auto
      with k show ?thesis by (intro exI [of _ k]) auto
    qed
  qed
qed

lemma search_append:
  assumes "sentence_endings_search x = Some e"
  shows "\<exists>k. sentence_endings_search (x @ t) = Some (e + k) \<and> k \<le> length t \<and>
            (\<forall>c\<in>set (take k t). isspace c) \<and> (0 < k \<longrightarrow> e = length x)"
  using scan_append [of None x 0 e t] assms by (simp add: sentence_endings_search_def)

lemma whole_Some:
  "sentence_endings_search buf = Some e \<Longrightarrow>
     whole buf = emit (take e buf) @ whole (drop e buf)"
  by (simp add: whole_def sentence_loop_Some)

lemma whole_append:
  "whole (x @ t) = fst (sentence_loop x) @ whole (snd (sentence_loop x) @ t)"
proof (induction x arbitrary: t rule: sentence_loop.induct)
  case (1 buf)
  show ?case
  proof (cases "sentence_endings_search buf")
    case None
    then show ?thesis by (simp add: sentence_loop_None)
  next
    case (Some e)
    then have e: "0 < e" "e \<le> length buf" using sentence_endings_search_end by auto
    from search_append [OF Some, of t] obtain k where
      k: "sentence_endings_search (buf @ t) = Some (e + k)" "k \<le> length t"
         "\<forall>c\<in>set (take k t). isspace c" "0 < k \<longrightarrow> e = length buf"
      by blast
    have IH: "whole (drop e buf @ t) =
        fst (sentence_loop (drop e buf)) @ whole (snd (sentence_loop (drop e buf)) @ t)"
      using "1.IH" [OF Some] by simp
    have step: "whole (buf @ t) = emit (take e buf) @ whole (drop e buf @ t)"
    proof (cases "k = 0")
      case True
      with k(1) e show ?thesis by (simp add: whole_Some)
    next
      case False
      with k(4) have el: "e = length buf" by simp
      have "whole (buf @ t) = emit (take (e + k) (buf @ t)) @ whole (drop (e + k) (buf @ t))"
        using k(1) by (rule whole_Some)
      also have "take (e + k) (buf @ t) = buf @ take k t" using el by simp
      also have "drop (e + k) (buf @ t) = drop k t" using el by simp
      also have "emit (buf @ take k t) = emit buf" using k(3) by (rule emit_append_space)
      also have "whole (drop k t) = whole (take k t @ drop k t)"
        using k(3) by (simp only: whole_spaces)
      finally show ?thesis using el by simp
    qed
    show ?thesis
      by (simp add: step IH sentence_loop_Some [OF Some])
  qed
qed

lemma sentence_loop_suffix: "\<exists>p. buf = p @ snd (sentence_loop buf)"
proof (induction buf rule: sentence_loop.induct)
  case (1 buf)
  show ?case
  proof (cases "sentence_endings_search buf")
    case None
    then show ?thesis by (simp add: sentence_loop_None)
  next
    case (Some e)
    from "1.IH" [OF Some] obtain p where "drop e buf = p @ snd (sentence_loop (drop e buf))"
      by blast
    then have "buf = (take e buf @ p) @ snd (sentence_loop (drop e buf))"
      by (metis append_assoc append_take_drop_id)
    then show ?thesis by (simp only: sentence_loop_Some [OF Some] snd_conv) blast
  qed
qed

lemma emit_kind: "e \<in> set (emit s) \<Longrightarrow> fst e = ''sentence''"
  by (auto simp: emit_def split: if_splits)

lemma sentence_loop_kind: "e \<in> set (fst (sentence_loop buf)) \<Longrightarrow> fst e = ''sentence''"
proof (induction buf rule: sentence_loop.induct)
  case (1 buf)
  show ?case
  proof (cases "sentence_endings_search buf")
    case None
    with "1.prems" show ?thesis by (simp add: sentence_loop_None)
  next
    case (Some e')
    with "1.prems" "1.IH" [OF Some] show ?thesis
      by (auto simp: sentence_loop_Some [OF Some] dest: emit_kind)
  qed
qed

subsection \<open>Text without marker and without fence\<close>

lemma gen_bind_Inr [simp]: "gen_bind (evs, Inr st) f = (evs @ fst (f st), snd (f st))"
  by (simp add: gen_bind_def split: prod.splits)

lemma gen_bind_Inl [simp]: "gen_bind (evs, Inl e) f = (evs, Inl e)"
  by (simp add: gen_bind_def)

lemma plain_process_chunk:
  assumes "\<not> in_marker st" "\<not> in_backticks st"
    and "\<not> contains clip_start_marker (buffer st @ chunk)"
    and "\<not> contains ''```'' (buffer st @ chunk)"
  shows "process_chunk clip_start_marker clip_end_marker st chunk =
           (fst (sentence_loop (buffer st @ chunk)),
            Inr (st\<lparr>buffer := snd (sentence_loop (buffer st @ chunk)),
                    full_response := full_response st @ chunk\<rparr>))"
  using assms
  by (simp add: process_chunk_def markers_def marker_start_def marker_end_def
      backticks_def sentences_def split: prod.splits)

lemma sentence_loop_done: "sentence_endings_search (snd (sentence_loop buf)) = None"
proof (induction buf rule: sentence_loop.induct)
  case (1 buf)
  show ?case
  proof (cases "sentence_endings_search buf")
    case None
    then show ?thesis by (simp add: sentence_loop_None)
  next
    case (Some e)
    with "1.IH" [OF Some] show ?thesis by (simp add: sentence_loop_Some [OF Some])
  qed
qed

lemma whole_no_boundary: "sentence_endings_search buf = None \<Longrightarrow> whole buf = emit buf"
  by (simp add: whole_def sentence_loop_None)

lemma plain_stream_loop:
  assumes "\<not> in_marker st" "\<not> in_backticks st"
    and "sentence_endings_search (buffer st) = None"
    and "\<not> contains clip_start_marker (buffer st @ concat chunks)"
    and "\<not> contains ''```'' (buffer st @ concat chunks)"
  shows "\<exists>evs st'. stream_loop clip_start_marker clip_end_marker st chunks = (evs, Inr st') \<and>
           \<not> in_marker st' \<and> \<not> in_backticks st' \<and>
           evs @ emit (buffer st') = whole (buffer st @ concat chunks) \<and>
           full_response st' = full_response st @ concat chunks"
  using assms
proof (induction chunks arbitrary: st)
  case Nil
  then have "whole (buffer st) = emit (buffer st)" by (simp add: whole_no_boundary)
  with Nil show ?case by simp
next
  case (Cons c chunks)
  let ?b = "buffer st @ c"
  let ?st1 = "st\<lparr>buffer := snd (sentence_loop ?b), full_response := full_response st @ c\<rparr>"
  have nc: "\<not> contains clip_start_marker ?b" "\<not> contains ''```'' ?b"
    using Cons.prems(4,5) contains_appendR [of _ ?b "concat chunks"] by auto
  have pc: "process_chunk clip_start_marker clip_end_marker st c = (fst (sentence_loop ?b), Inr ?st1)"
    using Cons.prems(1,2) nc by (rule plain_process_chunk)
  obtain p where p: "?b = p @ snd (sentence_loop ?b)"
    using sentence_loop_suffix by blast
  have whole_eq: "p @ snd (sentence_loop ?b) @ concat chunks = buffer st @ concat (c # chunks)"
    using p by (metis append_assoc concat.simps(2))
  have nc1: "\<not> contains clip_start_marker (buffer ?st1 @ concat chunks)"
    "\<not> contains ''```'' (buffer ?st1 @ concat chunks)"
    using Cons.prems(4,5) contains_appendL [of _ "snd (sentence_loop ?b) @ concat chunks" p]
    by (auto simp: whole_eq)
  have "\<not> in_marker ?st1" "\<not> in_backticks ?st1" using Cons.prems(1,2) by simp_all
  moreover have "sentence_endings_search (buffer ?st1) = None" by (simp add: sentence_loop_done)
  ultimately obtain evs st' where
    r: "stream_loop clip_start_marker clip_end_marker ?st1 chunks = (evs, Inr st')"
       "\<not> in_marker st'" "\<not> in_backticks st'"
       "evs @ emit (buffer st') = whole (buffer ?st1 @ concat chunks)"
       "full_response st' = full_response ?st1 @ concat chunks"
    using Cons.IH [of ?st1] nc1 by blast
  have "whole (buffer st @ concat (c # chunks)) = whole (?b @ concat chunks)" by simp
  also have "\<dots> = fst (sentence_loop ?b) @ whole (snd (sentence_loop ?b) @ concat chunks)"
    by (rule whole_append)
  finally have w: "whole (buffer st @ concat (c # chunks)) =
      fst (sentence_loop ?b) @ evs @ emit (buffer st')"
    using r(4) by simp
  have "stream_loop clip_start_marker clip_end_marker st (c # chunks) =
      (fst (sentence_loop ?b) @ evs, Inr st')"
    using pc r(1) by simp
  with r(2,3,5) w show ?case by simp
qed

lemma plain_stream:
  assumes "\<not> contains clip_start_marker (concat chunks)" "\<not> contains ''```'' (concat chunks)"
  shows "stream_sentences_from_chunks chunks clip_start_marker clip_end_marker =
           (whole (concat chunks) @ final_of (concat chunks), None)"
proof -
  have "sentence_endings_search (buffer init) = None"
    by (simp add: init_def sentence_endings_search_def)
  moreover have "\<not> in_marker init" "\<not> in_backticks init" "buffer init = []" "full_response init = []"
    by (simp_all add: init_def)
  ultimately obtain evs st' where
    r: "stream_loop clip_start_marker clip_end_marker init chunks = (evs, Inr st')"
       "\<not> in_marker st'" "\<not> in_backticks st'"
       "evs @ emit (buffer st') = whole (concat chunks)"
       "full_response st' = concat chunks"
    using plain_stream_loop [of init clip_start_marker chunks clip_end_marker] assms by auto
  from r(2,3) have "flush st' = emit (buffer st')" by (simp add: flush_def emit_def)
  moreover from r(5) have "final st' = final_of (concat chunks)" by (simp add: final_def final_of_def)
  ultimately show ?thesis
    using r(1,4) by (simp add: stream_sentences_from_chunks_def)
qed

lemma concat_per_char: "concat (per_char s) = s"
  by (induction s) (simp_all add: per_char_def)

subsection \<open>What each step yields and leaves\<close>

lemma not_isspace_backtick [simp]: "\<not> isspace (CHR 0x60)"
  by (simp add: isspace_def)

lemma emit_spoken: "e \<in> set (emit s) \<Longrightarrow> spoken e"
  by (auto simp: emit_def spoken_def strip_strip_nonblank split: if_splits)

lemma sentence_loop_spoken: "e \<in> set (fst (sentence_loop buf)) \<Longrightarrow> spoken e"
proof (induction buf rule: sentence_loop.induct)
  case (1 buf)
  show ?case
  proof (cases "sentence_endings_search buf")
    case None
    with "1.prems" show ?thesis by (simp add: sentence_loop_None)
  next
    case (Some e')
    with "1.prems" "1.IH" [OF Some] show ?thesis
      by (auto simp: sentence_loop_Some [OF Some] dest: emit_spoken)
  qed
qed

lemma strip_Cons_nonspace: "\<not> isspace c \<Longrightarrow> strip (c # x) \<noteq> []"
  by (auto simp: strip_Nil_iff)

lemma strip_backtick_nonblank [simp]: "strip (CHR 0x60 # x) \<noteq> []"
  by (simp add: strip_Cons_nonspace)

lemma strip_confirmation_nonblank [simp]: "strip ''Code saved to the clipboard.'' \<noteq> []"
  by (rule strip_Cons_nonspace) (simp add: isspace_def)

lemma emit_fold: "(if strip s \<noteq> [] then [(''sentence'', strip s)] else []) = emit s"
  by (simp add: emit_def)

lemma gen_bind_events:
  assumes "\<And>e. e \<in> set (fst r) \<Longrightarrow> P e" and "\<And>st e. e \<in> set (fst (f st)) \<Longrightarrow> P e"
  shows "e \<in> set (fst (gen_bind r f)) \<Longrightarrow> P e"
proof -
  assume e: "e \<in> set (fst (gen_bind r f))"
  obtain e1 r1 where r: "r = (e1, r1)" by (cases r) auto
  show "P e"
  proof (cases r1)
    case (Inl x)
    with r e assms(1) show ?thesis by simp
  next
    case (Inr st1)
    with r e have "e \<in> set e1 \<or> e \<in> set (fst (f st1))" by auto
    with r assms(1) [of e] assms(2) [of e st1] show ?thesis by fastforce
  qed
qed

lemma gen_bind_InrD:
  assumes "gen_bind r f = (evs, Inr st')"
  shows "\<exists>e1 st1 e2. r = (e1, Inr st1) \<and> f st1 = (e2, Inr st') \<and> evs = e1 @ e2"
proof -
  obtain e1 r1 where r: "r = (e1, r1)" by (cases r) auto
  show ?thesis
  proof (cases r1)
    case (Inl x)
    with r assms show ?thesis by simp
  next
    case (Inr st1)
    with r assms show ?thesis by (cases "f st1") auto
  qed
qed

lemma marker_start_events: "e \<in> set (fst (marker_start clip_start_marker st)) \<Longrightarrow> spoken e"
  by (auto simp: marker_start_def emit_fold dest: emit_spoken
      split: if_splits sum.splits prod.splits)

lemma marker_start_state:
  assumes "marker_start clip_start_marker st = (evs, Inr st')"
  shows "full_response st' = full_response st \<and> in_backticks st' = in_backticks st"
  using assms
  by (auto simp: marker_start_def split: if_splits sum.splits prod.splits)

lemma marker_end_events:
  "e \<in> set (fst (marker_end clip_end_marker st)) \<Longrightarrow> clipped e \<or> e = (''clipboard_text'', [])"
  using strip_strip_nonblank
  by (auto simp: marker_end_def clipped_def split: if_splits sum.splits prod.splits)

lemma marker_end_state:
  assumes "marker_end clip_end_marker st = (evs, Inr st')"
  shows "full_response st' = full_response st \<and> in_backticks st' = in_backticks st"
  using assms
  by (auto simp: marker_end_def split: if_splits sum.splits prod.splits)

lemma markers_events:
  assumes "e \<in> set (fst (markers clip_start_marker clip_end_marker st))"
  shows "loop_event e"
proof (cases "in_backticks st")
  case True
  with assms show ?thesis by (simp add: markers_def)
next
  case False
  with assms have "e \<in> set (fst (gen_bind (marker_start clip_start_marker st)
      (marker_end clip_end_marker)))" by (simp add: markers_def)
  then show ?thesis
    by (rule gen_bind_events [rotated 2])
      (auto simp: loop_event_def dest: marker_start_events marker_end_events)
qed

lemma markers_state:
  assumes "markers clip_start_marker clip_end_marker st = (evs, Inr st')"
  shows "full_response st' = full_response st \<and> in_backticks st' = in_backticks st"
proof (cases "in_backticks st")
  case True
  with assms show ?thesis by (simp add: markers_def)
next
  case False
  with assms have "gen_bind (marker_start clip_start_marker st) (marker_end clip_end_marker)
      = (evs, Inr st')" by (simp add: markers_def)
  from gen_bind_InrD [OF this] show ?thesis
    by (auto dest!: marker_start_state marker_end_state)
qed

lemma markers_exclusive:
  assumes "markers clip_start_marker clip_end_marker st = (evs, Inr st')" and "exclusive st"
  shows "exclusive st'"
proof (cases "in_backticks st")
  case True
  with assms show ?thesis by (simp add: markers_def)
next
  case False
  with markers_state [OF assms(1)] show ?thesis by (simp add: exclusive_def)
qed

lemma backticks_events: "e \<in> set (fst (backticks st)) \<Longrightarrow> spoken e \<or> clipped e"
  by (auto simp: backticks_def emit_fold spoken_def clipped_def str_partition_def
      dest: emit_spoken split: if_splits option.splits)

lemma backticks_state:
  assumes "backticks st = (evs, Inr st')"
  shows "full_response st' = full_response st \<and> in_marker st' = in_marker st"
  using assms
  by (auto simp: backticks_def str_partition_def split: if_splits option.splits)

lemma backticks_exclusive:
  assumes "backticks st = (evs, Inr st')" and "exclusive st"
  shows "exclusive st'"
  using assms
  by (auto simp: backticks_def exclusive_def str_partition_def split: if_splits option.splits)

lemma backticks_no_error: "\<exists>evs st'. backticks st = (evs, Inr st')"
  by (simp add: backticks_def str_partition_def split: option.splits)

lemma sentences_events: "e \<in> set (fst (sentences st)) \<Longrightarrow> spoken e"
  using sentence_loop_spoken [of e "buffer st"]
  by (auto simp: sentences_def split: prod.splits if_splits)

lemma sentences_state:
  "\<exists>evs st'. sentences st = (evs, Inr st') \<and> full_response st' = full_response st \<and>
           in_marker st' = in_marker st \<and> in_backticks st' = in_backticks st"
  by (auto simp: sentences_def split: prod.splits)

lemma process_chunk_events:
  assumes "e \<in> set (fst (process_chunk clip_start_marker clip_end_marker st chunk))"
  shows "loop_event e"
proof -
  have b: "x \<in> set (fst (backticks st1)) \<Longrightarrow> loop_event x" for x st1
    using backticks_events [of x st1] by (auto simp: loop_event_def)
  have s: "x \<in> set (fst (sentences st2)) \<Longrightarrow> loop_event x" for x st2
    using sentences_events [of x st2] by (simp add: loop_event_def)
  have mb: "x \<in> set (fst (gen_bind (markers clip_start_marker clip_end_marker st0) backticks))
      \<Longrightarrow> loop_event x" for x st0
    by (erule gen_bind_events [rotated 2]) (erule markers_events, erule b)
  from assms show ?thesis
    unfolding process_chunk_def
    by (rule gen_bind_events [rotated 2]) (erule mb, erule s)
qed

lemma process_chunk_state:
  assumes "process_chunk clip_start_marker clip_end_marker st chunk = (evs, Inr st')"
  shows "full_response st' = full_response st @ chunk \<and> (exclusive st \<longrightarrow> exclusive st')"
proof -
  let ?st0 = "st\<lparr>buffer := buffer st @ chunk, full_response := full_response st @ chunk\<rparr>"
  from assms obtain e12 st2 e3 where
    a: "gen_bind (markers clip_start_marker clip_end_marker ?st0) backticks = (e12, Inr st2)"
    and c: "sentences st2 = (e3, Inr st')"
    unfolding process_chunk_def by (blast dest: gen_bind_InrD)
  from a obtain e1 st1 e2 where
    m: "markers clip_start_marker clip_end_marker ?st0 = (e1, Inr st1)"
    and b: "backticks st1 = (e2, Inr st2)"
    by (blast dest: gen_bind_InrD)
  have x0: "exclusive st \<longrightarrow> exclusive ?st0" by (simp add: exclusive_def)
  from markers_state [OF m] backticks_state [OF b] sentences_state [of st2] c
  have "full_response st' = full_response st @ chunk" by auto
  moreover have "exclusive st \<longrightarrow> exclusive st'"
    using x0 markers_exclusive [OF m] backticks_exclusive [OF b] sentences_state [of st2] c
    by (auto simp: exclusive_def)
  ultimately show ?thesis by simp
qed

lemma stream_loop_events:
  "e \<in> set (fst (stream_loop clip_start_marker clip_end_marker st chunks)) \<Longrightarrow> loop_event e"
proof (induction chunks arbitrary: st e)
  case Nil
  then show ?case by simp
next
  case (Cons c chunks)
  from Cons.prems show ?case
    unfolding stream_loop.simps
    by (rule gen_bind_events [rotated 2]) (erule process_chunk_events, erule Cons.IH)
qed

lemma stream_loop_state:
  "stream_loop clip_start_marker clip_end_marker st chunks = (evs, Inr st') \<Longrightarrow>
     full_response st' = full_response st @ concat chunks \<and> (exclusive st \<longrightarrow> exclusive st')"
proof (induction chunks arbitrary: st evs)
  case Nil
  then show ?case by simp
next
  case (Cons c chunks)
  from Cons.prems obtain e1 st1 e2 where
    p: "process_chunk clip_start_marker clip_end_marker st c = (e1, Inr st1)"
    and l: "stream_loop clip_start_marker clip_end_marker st1 chunks = (e2, Inr st')"
    by (auto dest: gen_bind_InrD)
  from process_chunk_state [OF p] Cons.IH [OF l] show ?case by simp
qed

lemma marker_start_no_error:
  "clip_start_marker \<noteq> [] \<Longrightarrow> \<exists>evs st'. marker_start clip_start_marker st = (evs, Inr st')"
  by (simp add: marker_start_def str_partition_def split: option.splits)

lemma marker_end_no_error:
  "clip_end_marker \<noteq> [] \<Longrightarrow> \<exists>evs st'. marker_end clip_end_marker st = (evs, Inr st')"
  by (simp add: marker_end_def str_partition_def split: option.splits)

lemma gen_bind_no_error:
  assumes "\<exists>evs st'. r = (evs, Inr st')" and "\<And>st. \<exists>evs st'. f st = (evs, Inr st')"
  shows "\<exists>evs st'. gen_bind r f = (evs, Inr st')"
proof -
  from assms(1) obtain e1 st1 where "r = (e1, Inr st1)" by blast
  moreover from assms(2) obtain e2 st2 where "f st1 = (e2, Inr st2)" by blast
  ultimately show ?thesis by simp
qed

lemma process_chunk_no_error:
  assumes "clip_start_marker \<noteq> []" and "clip_end_marker \<noteq> []"
  shows "\<exists>evs st'. process_chunk clip_start_marker clip_end_marker st chunk = (evs, Inr st')"
proof -
  have "\<exists>evs st'. markers clip_start_marker clip_end_marker st0 = (evs, Inr st')" for st0
    unfolding markers_def
    using gen_bind_no_error [OF marker_start_no_error [OF assms(1)] marker_end_no_error [OF assms(2)]]
    by simp
  then show ?thesis
    unfolding process_chunk_def
    by (intro gen_bind_no_error backticks_no_error) (use sentences_state in blast)+
qed

lemma stream_loop_no_error:
  assumes "clip_start_marker \<noteq> []" and "clip_end_marker \<noteq> []"
  shows "\<exists>evs st'. stream_loop clip_start_marker clip_end_marker st chunks = (evs, Inr st')"
proof (induction chunks arbitrary: st)
  case Nil
  then show ?case by simp
next
  case (Cons c chunks)
  show ?case
    unfolding stream_loop.simps
    by (rule gen_bind_no_error [OF process_chunk_no_error [OF assms]]) (rule Cons.IH)
qed

lemma flush_events: "e \<in> set (flush st) \<Longrightarrow> spoken e \<or> clipped e"
  by (auto simp: flush_def spoken_def clipped_def strip_strip_nonblank split: if_splits)

subsection \<open>The shape of the output\<close>

lemma loop_event_tag: "loop_event e \<Longrightarrow> fst e \<noteq> ''full_response''"
  by (auto simp: loop_event_def spoken_def clipped_def)

lemma flush_event_tag: "e \<in> set (flush st) \<Longrightarrow> fst e \<noteq> ''full_response''"
  by (auto simp: flush_def split: if_splits)

lemma tail_event:
  assumes "\<And>e. e \<in> set body \<Longrightarrow> fst e \<noteq> k"
    and "xs = body @ (if c then [(k, p)] else [])"
  shows "length (filter (\<lambda>e. fst e = k) xs) \<le> 1"
    and "i < length xs \<Longrightarrow> fst (xs ! i) = k \<Longrightarrow> Suc i = length xs \<and> snd (xs ! i) = p \<and> c"
    and "c \<Longrightarrow> xs \<noteq> [] \<and> last xs = (k, p)"
proof -
  from assms(1) have f: "filter (\<lambda>e. fst e = k) body = []"
    by (auto simp: filter_empty_conv)
  with assms(2) show "length (filter (\<lambda>e. fst e = k) xs) \<le> 1" by simp
  show "c \<Longrightarrow> xs \<noteq> [] \<and> last xs = (k, p)" using assms(2) by simp
  assume i: "i < length xs" "fst (xs ! i) = k"
  have "\<not> i < length body"
  proof
    assume "i < length body"
    then have "xs ! i \<in> set body" using assms(2) by (simp add: nth_append)
    with assms(1) i(2) show False by blast
  qed
  with i assms(2) show "Suc i = length xs \<and> snd (xs ! i) = p \<and> c"
    by (cases c) (auto simp: nth_append)
qed

lemma stream_shape:
  "\<exists>body. (\<forall>e\<in>set body. fst e \<noteq> ''full_response'') \<and>
     (\<forall>e\<in>set (fst (stream_loop clip_start_marker clip_end_marker init chunks)).
        fst e \<noteq> ''full_response'') \<and>
     ((\<exists>err. stream_sentences_from_chunks chunks clip_start_marker clip_end_marker = (body, Some err)
         \<and> (clip_start_marker = [] \<or> clip_end_marker = []))
      \<or> stream_sentences_from_chunks chunks clip_start_marker clip_end_marker =
           (body @ (if strip (concat chunks) \<noteq> [] then [(''full_response'', strip (concat chunks))] else []),
            None))"
proof -
  obtain evs r where l: "stream_loop clip_start_marker clip_end_marker init chunks = (evs, r)"
    by (cases "stream_loop clip_start_marker clip_end_marker init chunks") auto
  have evs: "\<forall>e\<in>set evs. fst e \<noteq> ''full_response''"
    using stream_loop_events [of _ clip_start_marker clip_end_marker init chunks] l
    by (auto dest: loop_event_tag)
  show ?thesis
  proof (cases r)
    case (Inl err)
    with l have s: "stream_sentences_from_chunks chunks clip_start_marker clip_end_marker = (evs, Some err)"
      by (simp add: stream_sentences_from_chunks_def)
    have "clip_start_marker = [] \<or> clip_end_marker = []"
      using stream_loop_no_error [of clip_start_marker clip_end_marker init chunks] l Inl by auto
    with s evs l show ?thesis by (intro exI [of _ evs]) auto
  next
    case (Inr st)
    with l stream_loop_state [of clip_start_marker clip_end_marker init chunks evs st]
    have "full_response st = concat chunks" by (simp add: init_def)
    with l Inr have "stream_sentences_from_chunks chunks clip_start_marker clip_end_marker =
        ((evs @ flush st) @ (if strip (concat chunks) \<noteq> [] then [(''full_response'', strip (concat chunks))] else []), None)"
      by (simp add: stream_sentences_from_chunks_def final_def)
    moreover have "\<forall>e\<in>set (evs @ flush st). fst e \<noteq> ''full_response''"
      using evs by (auto dest: flush_event_tag)
    ultimately show ?thesis using evs l by (intro exI [of _ "evs @ flush st"]) auto
  qed
qed

subsection \<open>The pattern and the boundary of the specification\<close>







subsection \<open>A fixed text under every chunking\<close>

lemma steps_okD:
  assumes "steps_ok clip_start_marker clip_end_marker s sf ef" and "i \<le> j" and "j \<le> length s"
  shows "\<exists>evs. process_chunk clip_start_marker clip_end_marker (sf i) (drop i (take j s)) =
           (evs, Inr (sf j)) \<and> ef j = ef i @ evs"
proof -
  from assms(1) have "\<forall>i\<in>set [0..<Suc (length s)]. \<forall>j\<in>set [i..<Suc (length s)].
      step_ok clip_start_marker clip_end_marker s sf ef i j"
    by (simp only: steps_ok_def list_all_iff)
  moreover from assms(2,3) have "i \<in> set [0..<Suc (length s)]" "j \<in> set [i..<Suc (length s)]"
    by (simp_all only: set_upt atLeastLessThan_iff) auto
  ultimately have "step_ok clip_start_marker clip_end_marker s sf ef i j" by blast
  then show ?thesis by (auto simp: step_ok_def split: prod.splits)
qed

lemma chunking_invariant:
  assumes ok: "steps_ok clip_start_marker clip_end_marker s sf ef"
  shows "i \<le> length s \<Longrightarrow> concat chunks = drop i s \<Longrightarrow>
     \<exists>evs. stream_loop clip_start_marker clip_end_marker (sf i) chunks = (evs, Inr (sf (length s)))
        \<and> ef (length s) = ef i @ evs"
proof (induction chunks arbitrary: i)
  case Nil
  then have "i = length s" by simp
  then show ?case by simp
next
  case (Cons c chunks)
  let ?j = "i + length c"
  from Cons.prems(2) have len: "length c + length (concat chunks) = length s - i"
    by (metis concat.simps(2) length_append length_drop)
  with Cons.prems(1) have j: "i \<le> ?j" "?j \<le> length s" by auto
  from Cons.prems(2) have c: "drop i (take ?j s) = c"
    by (metis append_eq_conv_conj concat.simps(2) drop_take add_diff_cancel_left')
  from Cons.prems(2) have r: "concat chunks = drop ?j s"
    by (metis append_eq_conv_conj concat.simps(2) drop_drop add.commute)
  from steps_okD [OF ok j] c obtain e1 where
    e1: "process_chunk clip_start_marker clip_end_marker (sf i) c = (e1, Inr (sf ?j))"
      "ef ?j = ef i @ e1" by auto
  from Cons.IH [OF j(2) r] obtain e2 where
    e2: "stream_loop clip_start_marker clip_end_marker (sf ?j) chunks = (e2, Inr (sf (length s)))"
      "ef (length s) = ef ?j @ e2" by blast
  from e1 e2 show ?case by simp
qed

lemma marker_text_steps:
  "steps_ok default_start default_end marker_text marker_text_state marker_text_events"
  by code_simp


lemma marker_text_segment:
  assumes "concat chunks = marker_text"
  shows "segment chunks =
     ([(''sentence'', ''Hello''), (''clipboard_text'', ''secret''), (''sentence'', ''world.''),
       (''full_response'', ''Hello -CLIPSTART-secret-CLIPEND- world.'')], None)"
proof -
  from assms have c: "concat chunks = drop 0 marker_text" by simp
  from chunking_invariant [OF marker_text_steps _ c] obtain evs where
    l: "stream_loop default_start default_end (marker_text_state 0) chunks =
          (evs, Inr (marker_text_state (length marker_text)))"
    and e: "marker_text_events (length marker_text) = marker_text_events 0 @ evs"
    by auto
  have i: "marker_text_state 0 = init" by code_simp
  have e0: "marker_text_events 0 = []" by code_simp
  have en: "marker_text_events (length marker_text) =
      [(''sentence'', ''Hello''), (''clipboard_text'', ''secret'')]" by code_simp
  have f: "flush (marker_text_state (length marker_text)) = [(''sentence'', ''world.'')]"
    by code_simp
  have g: "final (marker_text_state (length marker_text)) =
      [(''full_response'', ''Hello -CLIPSTART-secret-CLIPEND- world.'')]" by code_simp
  from l i e e0 en f g show ?thesis
    by (simp add: segment_def stream_sentences_from_chunks_def)
qed


subsection \<open>A text as its payloads and the whitespace between them\<close>

lemma strip_decomp:
  "\<exists>l r. list_all isspace l \<and> list_all isspace r \<and> x = l @ strip x @ r"
proof -
  let ?t = "dropWhile isspace x"
  have "rev ?t = takeWhile isspace (rev ?t) @ dropWhile isspace (rev ?t)" by simp
  then have "?t = rev (dropWhile isspace (rev ?t)) @ rev (takeWhile isspace (rev ?t))"
    by (metis rev_append rev_rev_ident)
  then have "x = takeWhile isspace x @ strip x @ rev (takeWhile isspace (rev ?t))"
    by (metis strip_def takeWhile_dropWhile_id)
  moreover have "list_all isspace (takeWhile isspace x)"
    by (auto simp: list_all_iff dest: set_takeWhileD)
  moreover have "list_all isspace (rev (takeWhile isspace (rev ?t)))"
    by (auto simp: list_all_iff dest: set_takeWhileD)
  ultimately show ?thesis by blast
qed

lemma strip_idem: "strip (strip x) = strip x"
proof (cases "strip x = []")
  case True
  then show ?thesis by simp
next
  case False
  let ?t = "dropWhile isspace x"
  let ?d = "dropWhile isspace (rev ?t)"
  have sx: "strip x = rev ?d" by (simp add: strip_def)
  with False have d: "?d \<noteq> []" by simp
  then have hd_d: "\<not> isspace (hd ?d)" by (rule hd_dropWhile)
  from d have t: "?t \<noteq> []" by (metis dropWhile.simps(1) rev.simps(1))
  then have hd_t: "\<not> isspace (hd ?t)" by (rule hd_dropWhile)
  have "last ?d = last (rev ?t)"
    using d by (metis last_appendR takeWhile_dropWhile_id)
  also have "\<dots> = hd ?t" using t by (simp add: last_rev)
  finally have "\<not> isspace (last ?d)" using hd_t by simp
  then have "\<not> isspace (hd (rev ?d))" using d by (simp add: hd_rev)
  then have a: "dropWhile isspace (rev ?d) = rev ?d"
    using d by (cases "rev ?d") auto
  have b: "dropWhile isspace ?d = ?d" using hd_d d by (cases ?d) auto
  show ?thesis
    unfolding sx by (simp add: strip_def [of "rev ?d"] a b)
qed

lemma woven_Nil: "list_all isspace s \<Longrightarrow> woven [] s"
  unfolding woven_def by (intro exI [of _ "[s]"]) simp

lemma woven_Cons:
  assumes "list_all isspace l" and "woven ps s"
  shows "woven (p # ps) (l @ p @ s)"
proof -
  from assms(2) obtain gaps where g: "length gaps = Suc (length ps)"
    "list_all (list_all isspace) gaps" "s = weave gaps ps" unfolding woven_def by blast
  with assms(1) show ?thesis
    unfolding woven_def by (intro exI [of _ "l # gaps"]) simp
qed

lemma woven_space:
  assumes "list_all isspace l" and "woven ps s"
  shows "woven ps (l @ s)"
proof -
  from assms(2) obtain gaps where g: "length gaps = Suc (length ps)"
    "list_all (list_all isspace) gaps" "s = weave gaps ps" unfolding woven_def by blast
  from g(1) obtain g0 gs where gg: "gaps = g0 # gs" by (cases gaps) auto
  have "l @ weave (g0 # gs) ps = weave ((l @ g0) # gs) ps" by (cases ps) simp_all
  with g gg assms(1) show ?thesis
    unfolding woven_def by (intro exI [of _ "(l @ g0) # gs"]) simp
qed

lemma woven_emit:
  assumes "woven ps s"
  shows "woven (map snd (emit x) @ ps) (x @ s)"
proof (cases "strip x = []")
  case True
  then have "list_all isspace x" by (simp add: strip_Nil_iff list_all_iff)
  with assms True show ?thesis by (simp add: emit_def woven_space)
next
  case False
  from strip_decomp [of x] obtain l r where
    lr: "list_all isspace l" "list_all isspace r" "x = l @ strip x @ r" by blast
  from woven_Cons [OF lr(1) woven_space [OF lr(2) assms], of "strip x"]
  have "woven (strip x # ps) ((l @ strip x @ r) @ s)" by simp
  with lr(3) False show ?thesis by (simp add: emit_def)
qed

lemma woven_sentence_loop:
  "woven ps (snd (sentence_loop buf) @ t) \<Longrightarrow>
     woven (map snd (fst (sentence_loop buf)) @ ps) (buf @ t)"
proof (induction buf arbitrary: ps t rule: sentence_loop.induct)
  case (1 buf)
  show ?case
  proof (cases "sentence_endings_search buf")
    case None
    with "1.prems" show ?thesis by (simp add: sentence_loop_None)
  next
    case (Some e)
    from "1.prems" have "woven ps (snd (sentence_loop (drop e buf)) @ t)"
      by (simp add: sentence_loop_Some [OF Some])
    from "1.IH" [OF Some this]
    have "woven (map snd (fst (sentence_loop (drop e buf))) @ ps) (drop e buf @ t)" .
    from woven_emit [OF this, of "take e buf"]
    have "woven (map snd (emit (take e buf)) @ map snd (fst (sentence_loop (drop e buf))) @ ps)
        (take e buf @ drop e buf @ t)" .
    moreover have "take e buf @ drop e buf @ t = buf @ t"
      by (metis append_assoc append_take_drop_id)
    ultimately show ?thesis by (simp add: sentence_loop_Some [OF Some])
  qed
qed

lemma woven_whole: "woven (map snd (whole buf)) buf"
proof -
  have "woven [] []" by (simp add: woven_Nil)
  from woven_emit [OF this, of "snd (sentence_loop buf)"]
  have "woven (map snd (emit (snd (sentence_loop buf)))) (snd (sentence_loop buf) @ [])" by simp
  from woven_sentence_loop [OF this] show ?thesis by (simp add: whole_def)
qed

lemma payloads_whole: "payloads (whole s @ final_of s) = map snd (whole s)"
proof -
  have "\<forall>e\<in>set (whole s). fst e = ''sentence''"
    by (auto simp: whole_def dest: sentence_loop_kind emit_kind)
  then have "filter (\<lambda>e. fst e = ''sentence'' \<or> fst e = ''clipboard_text'') (whole s) = whole s"
    by (simp add: filter_id_conv)
  then show ?thesis by (simp add: payloads_def final_of_def)
qed

lemma whole_trimmed: "e \<in> set (whole s) \<Longrightarrow> strip (snd e) = snd e"
proof -
  have em: "e \<in> set (emit x) \<Longrightarrow> strip (snd e) = snd e" for x
    by (auto simp: emit_def strip_idem split: if_splits)
  have lp: "e \<in> set (fst (sentence_loop buf)) \<Longrightarrow> strip (snd e) = snd e" for buf
  proof (induction buf rule: sentence_loop.induct)
    case (1 buf)
    show ?case
    proof (cases "sentence_endings_search buf")
      case None
      with "1.prems" show ?thesis by (simp add: sentence_loop_None)
    next
      case (Some e')
      with "1.prems" "1.IH" [OF Some] em show ?thesis
        by (auto simp: sentence_loop_Some [OF Some])
    qed
  qed
  assume "e \<in> set (whole s)"
  with em lp show ?thesis by (auto simp: whole_def)
qed

subsection \<open>The sentence step inside an iteration\<close>




section \<open>Properties\<close>

subsection \<open>The empty stream\<close>

text \<open>
  Claim C10.  When the chunk stream yields no chunk, the generator yields no event: no
  sentence, no clipboard text and no full response.  This holds for every pair of markers,
  the empty ones included, since no marker is looked for before the first chunk.
\<close>

theorem empty_stream_no_events:
  "stream_sentences_from_chunks [] clip_start_marker clip_end_marker = ([], None)"
  by (simp add: stream_sentences_from_chunks_def init_def flush_def final_def strip_def)

subsection \<open>A fenced block delivered in one chunk\<close>

text \<open>
  Claim C2.  The input \<^verbatim>\<open>Use this: ```print(1)``` done.\<close> is claimed to yield, for every
  chunking, the sentence before the fence, the fenced block, the confirmation sentence,
  the sentence after the fence and the full response.  Delivered as one chunk it does not:
  the opening fence is handled by the \<^verbatim>\<open>if\<close> of line 125, the \<^verbatim>\<open>elif\<close> of line 131
  is then skipped for this chunk, and the flush puts everything after the opening fence
  on the clipboard.  Delivered one character at a time it yields what the claim says.
\<close>

theorem fence_single_chunk:
  "segment [''Use this: ```print(1)``` done.''] =
     ([(''sentence'', ''Use this:''),
       (''clipboard_text'', ''```print(1)``` done.''),
       (''full_response'', ''Use this: ```print(1)``` done.'')], None) \<and>
   segment (per_char ''Use this: ```print(1)``` done.'') =
     ([(''sentence'', ''Use this:''),
       (''clipboard_text'', ''```print(1)```''),
       (''sentence'', ''Code saved to the clipboard.''),
       (''sentence'', ''done.''),
       (''full_response'', ''Use this: ```print(1)``` done.'')], None)"
  by code_simp

subsection \<open>One character at a time against one chunk\<close>

text \<open>
  Claim C1, as stated: feeding a string one character at a time yields the same events,
  modulo trimming, as feeding it as one chunk.  It fails on a text with a marker span
  after two sentences: in one chunk the text before the start marker is yielded as one
  sentence (line 114), character by character it is cut at its sentence boundary first.
\<close>

theorem per_char_counterexample:
  "modulo_trim (fst (segment (per_char ''Hi. Hello -CLIPSTART-x-CLIPEND-'')))
     \<noteq> modulo_trim (fst (segment [''Hi. Hello -CLIPSTART-x-CLIPEND-'']))"
  by code_simp

text \<open>
  Claim C1, amended: for every input string that contains neither the start marker nor a
  triple backtick, feeding it one character at a time yields exactly the events (and the
  same normal end) as feeding it as one chunk.
\<close>

theorem per_char_equals_single_chunk:
  assumes "\<not> contains clip_start_marker s" and "\<not> contains ''```'' s"
  shows "stream_sentences_from_chunks (per_char s) clip_start_marker clip_end_marker =
           stream_sentences_from_chunks [s] clip_start_marker clip_end_marker"
  using assms
    plain_stream [of clip_start_marker "per_char s" clip_end_marker]
    plain_stream [of clip_start_marker "[s]" clip_end_marker]
  by (simp add: concat_per_char)

theorem per_char_equals_single_chunk_witness:
  "\<not> contains default_start ''Wait! Go on. Now'' \<and> \<not> contains ''```'' ''Wait! Go on. Now'' \<and>
   stream_sentences_from_chunks (per_char ''Wait! Go on. Now'') default_start default_end =
     stream_sentences_from_chunks [''Wait! Go on. Now''] default_start default_end \<and>
   stream_sentences_from_chunks [''Wait! Go on. Now''] default_start default_end =
     ([(''sentence'', ''Wait!''), (''sentence'', ''Go on.''), (''sentence'', ''Now''),
       (''full_response'', ''Wait! Go on. Now'')], None)"
proof -
  have h1: "\<not> contains default_start ''Wait! Go on. Now''" by code_simp
  have h2: "\<not> contains ''```'' ''Wait! Go on. Now''" by code_simp
  have v: "stream_sentences_from_chunks [''Wait! Go on. Now''] default_start default_end =
     ([(''sentence'', ''Wait!''), (''sentence'', ''Go on.''), (''sentence'', ''Now''),
       (''full_response'', ''Wait! Go on. Now'')], None)" by code_simp
  from per_char_equals_single_chunk [OF h1 h2, of default_end] h1 h2 v show ?thesis by blast
qed

subsection \<open>The payloads against the input\<close>

text \<open>
  Claim C6, as stated: for every chunking, the payloads of the sentence and clipboard
  events, concatenated and compared without whitespace, give back the input.  They do
  not when the input holds a marker span: the markers are delimiters, \<^verbatim>\<open>partition\<close>
  drops them (lines 112 and 119), and they are in no payload.
\<close>

theorem payloads_counterexample:
  "squash (payload_text (fst (segment [''Hello -CLIPSTART-secret-CLIPEND- world.''])))
     \<noteq> squash ''Hello -CLIPSTART-secret-CLIPEND- world.''"
  by code_simp

text \<open>
  Claim C6, amended: for every chunking (any number of fragments, empty ones included) of
  an input that contains neither the start marker nor a triple backtick, the input is
  exactly the payloads of the sentence and clipboard events, in order, with a string of
  whitespace only (possibly empty) before, between and after them, and every payload is
  trimmed and not empty.  So every character of the input is in exactly one payload, or is
  whitespace that a trim removed.
\<close>

theorem payloads_reconstruct_plain_input:
  assumes "\<not> contains clip_start_marker (concat chunks)" and "\<not> contains ''```'' (concat chunks)"
  shows "(\<exists>gaps. length gaps =
              Suc (length (payloads (fst (stream_sentences_from_chunks chunks clip_start_marker clip_end_marker)))) \<and>
            list_all (list_all isspace) gaps \<and>
            concat chunks =
              weave gaps (payloads (fst (stream_sentences_from_chunks chunks clip_start_marker clip_end_marker)))) \<and>
         list_all (\<lambda>p. strip p = p \<and> p \<noteq> [])
           (payloads (fst (stream_sentences_from_chunks chunks clip_start_marker clip_end_marker)))"
proof -
  let ?s = "concat chunks"
  have p: "payloads (fst (stream_sentences_from_chunks chunks clip_start_marker clip_end_marker)) =
      map snd (whole ?s)"
    using plain_stream [OF assms, of clip_end_marker] by (simp add: payloads_whole)
  have "\<forall>e\<in>set (whole ?s). spoken e"
    by (auto simp: whole_def dest: sentence_loop_spoken emit_spoken)
  then have "list_all (\<lambda>p. strip p = p \<and> p \<noteq> []) (map snd (whole ?s))"
    by (auto simp: list_all_iff spoken_def whole_trimmed)
  with woven_whole [of ?s] p show ?thesis by (simp add: woven_def)
qed

theorem payloads_reconstruct_plain_input_witness:
  "\<not> contains default_start (concat [''No. Y'', ''es!  May'', ''be so '']) \<and>
   \<not> contains ''```'' (concat [''No. Y'', ''es!  May'', ''be so '']) \<and>
   payloads (fst (stream_sentences_from_chunks [''No. Y'', ''es!  May'', ''be so '']
       default_start default_end)) = [''No.'', ''Yes!'', ''Maybe so''] \<and>
   (\<exists>gaps. length gaps = Suc (length [''No.'', ''Yes!'', ''Maybe so'']) \<and>
      list_all (list_all isspace) gaps \<and>
      concat [''No. Y'', ''es!  May'', ''be so ''] = weave gaps [''No.'', ''Yes!'', ''Maybe so'']) \<and>
   concat [''No. Y'', ''es!  May'', ''be so ''] =
     weave [[], '' '', ''  '', '' ''] [''No.'', ''Yes!'', ''Maybe so'']"
proof -
  have h1: "\<not> contains default_start (concat [''No. Y'', ''es!  May'', ''be so ''])" by code_simp
  have h2: "\<not> contains ''```'' (concat [''No. Y'', ''es!  May'', ''be so ''])" by code_simp
  have v: "payloads (fst (stream_sentences_from_chunks [''No. Y'', ''es!  May'', ''be so '']
       default_start default_end)) = [''No.'', ''Yes!'', ''Maybe so'']" by code_simp
  have w: "concat [''No. Y'', ''es!  May'', ''be so ''] =
     weave [[], '' '', ''  '', '' ''] [''No.'', ''Yes!'', ''Maybe so'']" by code_simp
  from payloads_reconstruct_plain_input [OF h1 h2, of default_end]
  have "\<exists>gaps. length gaps = Suc (length (payloads (fst (stream_sentences_from_chunks
        [''No. Y'', ''es!  May'', ''be so ''] default_start default_end)))) \<and>
      list_all (list_all isspace) gaps \<and>
      concat [''No. Y'', ''es!  May'', ''be so ''] = weave gaps (payloads (fst
        (stream_sentences_from_chunks [''No. Y'', ''es!  May'', ''be so '']
           default_start default_end)))" by blast
  then have e: "\<exists>gaps. length gaps = Suc (length [''No.'', ''Yes!'', ''Maybe so'']) \<and>
      list_all (list_all isspace) gaps \<and>
      concat [''No. Y'', ''es!  May'', ''be so ''] = weave gaps [''No.'', ''Yes!'', ''Maybe so'']"
    by (simp only: v)
  from h1 h2 v e w show ?thesis by blast
qed

subsection \<open>The full response\<close>

text \<open>
  Claim C4.  For every chunk stream: the output holds at most one full response event; the
  loop over the chunks yields none, so it comes only after the stream is exhausted; a full
  response event is the last event, its payload is the concatenation of all chunks,
  trimmed, and that text is not empty; and when the trimmed concatenation is not empty
  (and the markers are not empty strings, on which \<^verbatim>\<open>partition\<close> raises), the generator
  ends normally and its last event is that full response.
\<close>

theorem full_response_once_and_last:
  "length (full_responses (fst (stream_sentences_from_chunks chunks clip_start_marker clip_end_marker))) \<le> 1 \<and>
   (\<forall>e\<in>set (fst (stream_loop clip_start_marker clip_end_marker init chunks)).
      fst e \<noteq> ''full_response'') \<and>
   (\<forall>i<length (fst (stream_sentences_from_chunks chunks clip_start_marker clip_end_marker)).
      fst (fst (stream_sentences_from_chunks chunks clip_start_marker clip_end_marker) ! i) = ''full_response'' \<longrightarrow>
        Suc i = length (fst (stream_sentences_from_chunks chunks clip_start_marker clip_end_marker)) \<and>
        snd (fst (stream_sentences_from_chunks chunks clip_start_marker clip_end_marker) ! i) = strip (concat chunks) \<and>
        strip (concat chunks) \<noteq> []) \<and>
   (clip_start_marker \<noteq> [] \<and> clip_end_marker \<noteq> [] \<and> strip (concat chunks) \<noteq> [] \<longrightarrow>
      snd (stream_sentences_from_chunks chunks clip_start_marker clip_end_marker) = None \<and>
      fst (stream_sentences_from_chunks chunks clip_start_marker clip_end_marker) \<noteq> [] \<and>
      last (fst (stream_sentences_from_chunks chunks clip_start_marker clip_end_marker)) =
        (''full_response'', strip (concat chunks)))"
  (is "?once \<and> ?loop \<and> ?last \<and> ?always")
proof -
  let ?S = "stream_sentences_from_chunks chunks clip_start_marker clip_end_marker"
  let ?c = "strip (concat chunks) \<noteq> []"
  let ?F = "if ?c then [(''full_response'', strip (concat chunks))] else []"
  from stream_shape [of clip_start_marker clip_end_marker chunks] obtain body where
    body: "\<And>e. e \<in> set body \<Longrightarrow> fst e \<noteq> ''full_response''"
    and loop: ?loop
    and shape: "(\<exists>err. ?S = (body, Some err) \<and> (clip_start_marker = [] \<or> clip_end_marker = []))
       \<or> ?S = (body @ ?F, None)"
    by blast
  from shape show ?thesis
  proof
    assume "\<exists>err. ?S = (body, Some err) \<and> (clip_start_marker = [] \<or> clip_end_marker = [])"
    then obtain err where s: "?S = (body, Some err)"
      and m: "clip_start_marker = [] \<or> clip_end_marker = []" by blast
    have xs: "fst ?S = body @ (if False then [(''full_response'', strip (concat chunks))] else [])"
      using s by simp
    from tail_event(1) [OF body xs] have ?once by (simp add: full_responses_def)
    moreover from tail_event(2) [OF body xs] have ?last by blast
    moreover from m have ?always by blast
    ultimately show ?thesis using loop by blast
  next
    assume s: "?S = (body @ ?F, None)"
    then have xs: "fst ?S = body @ (if ?c then [(''full_response'', strip (concat chunks))] else [])"
      by simp
    from tail_event(1) [OF body xs] have ?once by (simp add: full_responses_def)
    moreover from tail_event(2) [OF body xs] have ?last by blast
    moreover from tail_event(3) [OF body xs] s have ?always by simp
    ultimately show ?thesis using loop by blast
  qed
qed

theorem full_response_once_and_last_witness:
  "default_start \<noteq> [] \<and> default_end \<noteq> [] \<and> strip (concat [''  Hi. '', ''Bye '']) \<noteq> [] \<and>
   snd (stream_sentences_from_chunks [''  Hi. '', ''Bye ''] default_start default_end) = None \<and>
   last (fst (stream_sentences_from_chunks [''  Hi. '', ''Bye ''] default_start default_end)) =
     (''full_response'', strip (concat [''  Hi. '', ''Bye ''])) \<and>
   length (full_responses (fst (stream_sentences_from_chunks [''  Hi. '', ''Bye '']
     default_start default_end))) \<le> 1 \<and>
   strip (concat [''  Hi. '', ''Bye '']) = ''Hi. Bye''"
proof -
  have h1: "default_start \<noteq> []" by code_simp
  have h2: "default_end \<noteq> []" by code_simp
  have h3: "strip (concat [''  Hi. '', ''Bye '']) \<noteq> []" by code_simp
  have v: "strip (concat [''  Hi. '', ''Bye '']) = ''Hi. Bye''" by code_simp
  note t = full_response_once_and_last [of "[''  Hi. '', ''Bye '']" default_start default_end]
  from t have once: "length (full_responses (fst (stream_sentences_from_chunks [''  Hi. '', ''Bye '']
     default_start default_end))) \<le> 1" by blast
  from t h1 h2 h3 have always:
    "snd (stream_sentences_from_chunks [''  Hi. '', ''Bye ''] default_start default_end) = None \<and>
     last (fst (stream_sentences_from_chunks [''  Hi. '', ''Bye ''] default_start default_end)) =
       (''full_response'', strip (concat [''  Hi. '', ''Bye '']))" by blast
  from h1 h2 h3 v once always show ?thesis by blast
qed

subsection \<open>The two modes\<close>

text \<open>
  Claim C5.  \<^verbatim>\<open>in_marker\<close> and \<^verbatim>\<open>in_backticks\<close> are never both true: not in the state
  after any number \<open>k\<close> of chunks of any stream, and not at a point inside an iteration
  that starts from a state where they are not both true (after the start marker test,
  after both marker tests, after the backtick tests, after the sentence loop).  The
  marker tests do nothing while \<^verbatim>\<open>in_backticks\<close> is true, and the backtick tests do nothing
  while \<^verbatim>\<open>in_marker\<close> is true.
\<close>

theorem flags_never_both:
  "(stream_loop clip_start_marker clip_end_marker init (take k chunks) = (evs, Inr st) \<longrightarrow>
      \<not> (in_marker st \<and> in_backticks st)) \<and>
   (\<not> (in_marker st0 \<and> in_backticks st0) \<longrightarrow>
      (\<not> in_backticks st0 \<and> marker_start clip_start_marker st0 = (evs1, Inr st1) \<longrightarrow>
         \<not> (in_marker st1 \<and> in_backticks st1)) \<and>
      (markers clip_start_marker clip_end_marker st0 = (evs2, Inr st2) \<longrightarrow>
         \<not> (in_marker st2 \<and> in_backticks st2)) \<and>
      (backticks st0 = (evs3, Inr st3) \<longrightarrow> \<not> (in_marker st3 \<and> in_backticks st3)) \<and>
      (sentences st0 = (evs4, Inr st4) \<longrightarrow> \<not> (in_marker st4 \<and> in_backticks st4))) \<and>
   (in_backticks stb \<longrightarrow> markers clip_start_marker clip_end_marker stb = ([], Inr stb)) \<and>
   (in_marker stm \<longrightarrow> backticks stm = ([], Inr stm))"
proof -
  have "exclusive init" by (simp add: exclusive_def init_def)
  then have a: "stream_loop clip_start_marker clip_end_marker init (take k chunks) = (evs, Inr st) \<longrightarrow>
      \<not> (in_marker st \<and> in_backticks st)"
    using stream_loop_state [of clip_start_marker clip_end_marker init "take k chunks" evs st]
    by (auto simp: exclusive_def)
  have c: "\<not> in_backticks st0 \<and> marker_start clip_start_marker st0 = (evs1, Inr st1) \<longrightarrow>
      \<not> (in_marker st1 \<and> in_backticks st1)"
    using marker_start_state [of clip_start_marker st0 evs1 st1] by auto
  have d: "\<not> (in_marker st0 \<and> in_backticks st0) \<and>
      markers clip_start_marker clip_end_marker st0 = (evs2, Inr st2) \<longrightarrow>
      \<not> (in_marker st2 \<and> in_backticks st2)"
    using markers_exclusive [of clip_start_marker clip_end_marker st0 evs2 st2]
    by (auto simp: exclusive_def)
  have e: "\<not> (in_marker st0 \<and> in_backticks st0) \<and> backticks st0 = (evs3, Inr st3) \<longrightarrow>
      \<not> (in_marker st3 \<and> in_backticks st3)"
    using backticks_exclusive [of st0 evs3 st3] by (auto simp: exclusive_def)
  have f: "\<not> (in_marker st0 \<and> in_backticks st0) \<and> sentences st0 = (evs4, Inr st4) \<longrightarrow>
      \<not> (in_marker st4 \<and> in_backticks st4)"
    using sentences_state [of st0] by auto
  have g: "in_backticks stb \<longrightarrow> markers clip_start_marker clip_end_marker stb = ([], Inr stb)"
    by (simp add: markers_def)
  have h: "in_marker stm \<longrightarrow> backticks stm = ([], Inr stm)"
    by (simp add: backticks_def)
  from a c d e f g h show ?thesis by blast
qed

theorem flags_never_both_witness:
  "stream_loop default_start default_end init (take 1 [''a -CLIPSTART-b'', ''-CLIPEND- ```c'']) =
     ([(''sentence'', ''a'')],
      Inr \<lparr>buffer = ''b'', full_response = ''a -CLIPSTART-b'', in_marker = True, in_backticks = False\<rparr>) \<and>
   marker_start default_start
       \<lparr>buffer = ''x -CLIPSTART-y-CLIPEND- ```z'', full_response = [], in_marker = False, in_backticks = False\<rparr> =
     ([(''sentence'', ''x'')],
      Inr \<lparr>buffer = ''y-CLIPEND- ```z'', full_response = [], in_marker = True, in_backticks = False\<rparr>) \<and>
   markers default_start default_end
       \<lparr>buffer = ''x -CLIPSTART-y-CLIPEND- ```z'', full_response = [], in_marker = False, in_backticks = False\<rparr> =
     ([(''sentence'', ''x''), (''clipboard_text'', ''y'')],
      Inr \<lparr>buffer = '' ```z'', full_response = [], in_marker = False, in_backticks = False\<rparr>) \<and>
   backticks
       \<lparr>buffer = ''x -CLIPSTART-y-CLIPEND- ```z'', full_response = [], in_marker = False, in_backticks = False\<rparr> =
     ([(''sentence'', ''x -CLIPSTART-y-CLIPEND-'')],
      Inr \<lparr>buffer = ''z'', full_response = [], in_marker = False, in_backticks = True\<rparr>) \<and>
   sentences
       \<lparr>buffer = ''x -CLIPSTART-y-CLIPEND- ```z'', full_response = [], in_marker = False, in_backticks = False\<rparr> =
     ([], Inr \<lparr>buffer = ''x -CLIPSTART-y-CLIPEND- ```z'', full_response = [], in_marker = False, in_backticks = False\<rparr>) \<and>
   in_backticks \<lparr>buffer = ''-CLIPSTART-'', full_response = [], in_marker = False, in_backticks = True\<rparr> \<and>
   markers default_start default_end
       \<lparr>buffer = ''-CLIPSTART-'', full_response = [], in_marker = False, in_backticks = True\<rparr> =
     ([], Inr \<lparr>buffer = ''-CLIPSTART-'', full_response = [], in_marker = False, in_backticks = True\<rparr>) \<and>
   in_marker \<lparr>buffer = ''```'', full_response = [], in_marker = True, in_backticks = False\<rparr> \<and>
   backticks \<lparr>buffer = ''```'', full_response = [], in_marker = True, in_backticks = False\<rparr> =
     ([], Inr \<lparr>buffer = ''```'', full_response = [], in_marker = True, in_backticks = False\<rparr>) \<and>
   \<not> (in_marker \<lparr>buffer = ''b'', full_response = ''a -CLIPSTART-b'', in_marker = True, in_backticks = False\<rparr> \<and>
      in_backticks \<lparr>buffer = ''b'', full_response = ''a -CLIPSTART-b'', in_marker = True, in_backticks = False\<rparr>)"
proof -
  let ?p = "\<lparr>buffer = ''x -CLIPSTART-y-CLIPEND- ```z'', full_response = [],
               in_marker = False, in_backticks = False\<rparr>"
  let ?b = "\<lparr>buffer = ''-CLIPSTART-'', full_response = [], in_marker = False, in_backticks = True\<rparr>"
  let ?m = "\<lparr>buffer = ''```'', full_response = [], in_marker = True, in_backticks = False\<rparr>"
  let ?s = "\<lparr>buffer = ''b'', full_response = ''a -CLIPSTART-b'', in_marker = True, in_backticks = False\<rparr>"
  have a: "stream_loop default_start default_end init (take 1 [''a -CLIPSTART-b'', ''-CLIPEND- ```c'']) =
     ([(''sentence'', ''a'')], Inr ?s)" by code_simp
  have b: "marker_start default_start ?p =
     ([(''sentence'', ''x'')],
      Inr \<lparr>buffer = ''y-CLIPEND- ```z'', full_response = [], in_marker = True, in_backticks = False\<rparr>)"
    by code_simp
  have c: "markers default_start default_end ?p =
     ([(''sentence'', ''x''), (''clipboard_text'', ''y'')],
      Inr \<lparr>buffer = '' ```z'', full_response = [], in_marker = False, in_backticks = False\<rparr>)"
    by code_simp
  have d: "backticks ?p =
     ([(''sentence'', ''x -CLIPSTART-y-CLIPEND-'')],
      Inr \<lparr>buffer = ''z'', full_response = [], in_marker = False, in_backticks = True\<rparr>)"
    by code_simp
  have e: "sentences ?p = ([], Inr ?p)" by code_simp
  have f: "in_backticks ?b" "in_marker ?m" by simp_all
  note t = flags_never_both [of default_start default_end 1 "[''a -CLIPSTART-b'', ''-CLIPEND- ```c'']"
      "[(''sentence'', ''a'')]" ?s ?p _ _ _ _ _ _ _ _ ?b ?m]
  from t a have g: "\<not> (in_marker ?s \<and> in_backticks ?s)" by blast
  from t f have h: "markers default_start default_end ?b = ([], Inr ?b)"
    "backticks ?m = ([], Inr ?m)" by blast+
  from a b c d e f g h show ?thesis by blast
qed

subsection \<open>The marker example under every chunking\<close>

text \<open>
  Claim C3.  For every chunking of \<^verbatim>\<open>Hello -CLIPSTART-secret-CLIPEND- world.\<close> into
  fragments (empty fragments included), with the default markers, the generator yields
  exactly the sentence \<^verbatim>\<open>Hello\<close>, the clipboard text \<^verbatim>\<open>secret\<close>, the sentence
  \<^verbatim>\<open>world.\<close> and the full response with the whole text, and ends normally.
\<close>

theorem marker_round_trip:
  assumes "concat chunks = ''Hello -CLIPSTART-secret-CLIPEND- world.''"
  shows "segment chunks =
     ([(''sentence'', ''Hello''), (''clipboard_text'', ''secret''), (''sentence'', ''world.''),
       (''full_response'', ''Hello -CLIPSTART-secret-CLIPEND- world.'')], None)"
  using assms by (intro marker_text_segment) (simp add: marker_text_def)

theorem marker_round_trip_witness:
  "concat [''Hello -CLIPST'', ''ART-secret-CLIPEND- wor'', [], ''ld.''] =
     ''Hello -CLIPSTART-secret-CLIPEND- world.'' \<and>
   segment [''Hello -CLIPST'', ''ART-secret-CLIPEND- wor'', [], ''ld.''] =
     ([(''sentence'', ''Hello''), (''clipboard_text'', ''secret''), (''sentence'', ''world.''),
       (''full_response'', ''Hello -CLIPSTART-secret-CLIPEND- world.'')], None)"
proof -
  have h: "concat [''Hello -CLIPST'', ''ART-secret-CLIPEND- wor'', [], ''ld.''] =
     ''Hello -CLIPSTART-secret-CLIPEND- world.''" by code_simp
  from marker_round_trip [OF h] h show ?thesis by blast
qed

subsection \<open>The flush\<close>



subsection \<open>Blank payloads\<close>

text \<open>
  Claim C8.  A blank payload is never yielded where the code guards the yield: not before
  a start marker, not before an opening fence (nor by a closed fence, whose payload holds
  the fences), not by the sentence loop, not by the flush, not as the full response.  The
  exception is the clipboard text of a marker span closed by the end marker: it is yielded
  whatever its trimmed payload, so over a whole run an event with a blank payload can only
  be a clipboard text with the empty payload, as for \<^verbatim>\<open>-CLIPSTART- -CLIPEND-\<close>.
\<close>

theorem blank_payloads_suppressed:
  "(\<forall>e\<in>set (fst (marker_start clip_start_marker st)). strip (snd e) \<noteq> []) \<and>
   (\<forall>e\<in>set (fst (backticks st)). strip (snd e) \<noteq> []) \<and>
   (\<forall>e\<in>set (fst (sentences st)). strip (snd e) \<noteq> []) \<and>
   (\<forall>e\<in>set (flush st). strip (snd e) \<noteq> []) \<and>
   (\<forall>e\<in>set (final st). strip (snd e) \<noteq> []) \<and>
   (clip_end_marker \<noteq> [] \<and> in_marker st \<and> str_find (buffer st) clip_end_marker = Some i \<longrightarrow>
      marker_end clip_end_marker st =
        ([(''clipboard_text'', strip (take i (buffer st)))],
         Inr (st\<lparr>buffer := drop (i + length clip_end_marker) (buffer st), in_marker := False\<rparr>))) \<and>
   (\<forall>e\<in>set (fst (stream_sentences_from_chunks chunks clip_start_marker clip_end_marker)).
      strip (snd e) = [] \<longrightarrow> e = (''clipboard_text'', [])) \<and>
   segment [''-CLIPSTART- -CLIPEND-''] =
     ([(''clipboard_text'', []), (''full_response'', ''-CLIPSTART- -CLIPEND-'')], None)"
proof -
  have a: "\<forall>e\<in>set (fst (marker_start clip_start_marker st)). strip (snd e) \<noteq> []"
    by (auto dest!: marker_start_events simp: spoken_def)
  have b: "\<forall>e\<in>set (fst (backticks st)). strip (snd e) \<noteq> []"
    by (auto dest!: backticks_events simp: spoken_def clipped_def)
  have c: "\<forall>e\<in>set (fst (sentences st)). strip (snd e) \<noteq> []"
    by (auto dest!: sentences_events simp: spoken_def)
  have d: "\<forall>e\<in>set (flush st). strip (snd e) \<noteq> []"
    by (auto dest!: flush_events simp: spoken_def clipped_def)
  have e: "\<forall>e\<in>set (final st). strip (snd e) \<noteq> []"
    by (auto simp: final_def strip_strip_nonblank)
  have f: "clip_end_marker \<noteq> [] \<and> in_marker st \<and> str_find (buffer st) clip_end_marker = Some i \<longrightarrow>
      marker_end clip_end_marker st =
        ([(''clipboard_text'', strip (take i (buffer st)))],
         Inr (st\<lparr>buffer := drop (i + length clip_end_marker) (buffer st), in_marker := False\<rparr>))"
    by (simp add: marker_end_def contains_def str_partition_def)
  have g: "\<forall>e\<in>set (fst (stream_sentences_from_chunks chunks clip_start_marker clip_end_marker)).
      strip (snd e) = [] \<longrightarrow> e = (''clipboard_text'', [])"
  proof
    fix e
    assume m: "e \<in> set (fst (stream_sentences_from_chunks chunks clip_start_marker clip_end_marker))"
    obtain evs r where l: "stream_loop clip_start_marker clip_end_marker init chunks = (evs, r)"
      by (cases "stream_loop clip_start_marker clip_end_marker init chunks") auto
    have le: "x \<in> set evs \<Longrightarrow> loop_event x" for x
      using stream_loop_events [of x clip_start_marker clip_end_marker init chunks] l by simp
    have "loop_event e \<or> strip (snd e) \<noteq> []"
    proof (cases r)
      case (Inl err)
      with l m le show ?thesis by (simp add: stream_sentences_from_chunks_def)
    next
      case (Inr st')
      with l m have "e \<in> set evs \<or> e \<in> set (flush st') \<or> e \<in> set (final st')"
        by (auto simp: stream_sentences_from_chunks_def)
      then show ?thesis
        using le [of e] flush_events [of e st']
        by (auto simp: final_def strip_strip_nonblank spoken_def clipped_def split: if_splits)
    qed
    then show "strip (snd e) = [] \<longrightarrow> e = (''clipboard_text'', [])"
      by (auto simp: loop_event_def spoken_def clipped_def)
  qed
  have h: "segment [''-CLIPSTART- -CLIPEND-''] =
     ([(''clipboard_text'', []), (''full_response'', ''-CLIPSTART- -CLIPEND-'')], None)"
    by code_simp
  from a b c d e f g h show ?thesis by blast
qed

theorem blank_payloads_suppressed_witness:
  "fst (marker_start default_start
      \<lparr>buffer = ''Hi -CLIPSTART-'', full_response = [], in_marker = False, in_backticks = False\<rparr>) =
     [(''sentence'', ''Hi'')] \<and> strip ''Hi'' \<noteq> [] \<and>
   fst (marker_start default_start
      \<lparr>buffer = ''  -CLIPSTART-'', full_response = [], in_marker = False, in_backticks = False\<rparr>) = [] \<and>
   default_end \<noteq> [] \<and>
   in_marker \<lparr>buffer = ''  -CLIPEND-x'', full_response = [], in_marker = True, in_backticks = False\<rparr> \<and>
   str_find (buffer \<lparr>buffer = ''  -CLIPEND-x'', full_response = [], in_marker = True, in_backticks = False\<rparr>)
     default_end = Some 2 \<and>
   marker_end default_end
      \<lparr>buffer = ''  -CLIPEND-x'', full_response = [], in_marker = True, in_backticks = False\<rparr> =
     ([(''clipboard_text'', [])],
      Inr \<lparr>buffer = ''x'', full_response = [], in_marker = False, in_backticks = False\<rparr>)"
proof -
  let ?p = "\<lparr>buffer = ''Hi -CLIPSTART-'', full_response = [], in_marker = False, in_backticks = False\<rparr>"
  let ?m = "\<lparr>buffer = ''  -CLIPEND-x'', full_response = [], in_marker = True, in_backticks = False\<rparr>"
  have a: "fst (marker_start default_start ?p) = [(''sentence'', ''Hi'')]" by code_simp
  have b: "fst (marker_start default_start
      \<lparr>buffer = ''  -CLIPSTART-'', full_response = [], in_marker = False, in_backticks = False\<rparr>) = []"
    by code_simp
  have c: "default_end \<noteq> []" by code_simp
  have d: "in_marker ?m" by simp
  have e: "str_find (buffer ?m) default_end = Some 2" by code_simp
  have v: "strip (take 2 (buffer ?m)) = []" "drop (2 + length default_end) (buffer ?m) = ''x''"
    by code_simp+
  note t = blank_payloads_suppressed [of default_start ?p]
  from t a have f: "strip ''Hi'' \<noteq> []" by auto
  note u = blank_payloads_suppressed [of _ ?m default_end 2]
  from u c d e have "marker_end default_end ?m =
      ([(''clipboard_text'', strip (take 2 (buffer ?m)))],
       Inr (?m\<lparr>buffer := drop (2 + length default_end) (buffer ?m), in_marker := False\<rparr>))"
    by blast
  with v have g: "marker_end default_end ?m =
     ([(''clipboard_text'', [])],
      Inr \<lparr>buffer = ''x'', full_response = [], in_marker = False, in_backticks = False\<rparr>)"
    by simp
  from a b c d e f g show ?thesis by blast
qed

subsection \<open>The sentence loop\<close>



end
